theory Spec2Isabelle
  imports Main
begin

section \<open>The element type and the allocator\<close>

text \<open>
  \<^verbatim>\<open>vector.h\<close> is a template over the element type \<open>T\<close>. What the container needs from
  \<open>T\<close> is collected in a record: the value a value-initialised \<open>T\<close> has, which of its
  special member functions throw (and on which operands), the state a moved-from object
  is left in, and the two compile-time traits that \<open>FillNewData\<close> and
  \<open>InsertWithoutRelocation\<close> branch on. Copies and moves follow the standard's
  CopyConstructible/MoveConstructible requirements: the new object has the value of the
  source, a copy leaves the source alone, a move leaves it in the state \<open>moved_from\<close>.
  An operation of \<open>T\<close> that throws leaves its operands as they were.
  \<open>can_allocate n\<close> says whether \<open>operator new\<close> succeeds for a block of \<open>n\<close> elements.
\<close>

record 'a env =
  value_init :: 'a
  value_init_throws :: bool
  copy_ctor_throws :: "'a \<Rightarrow> bool"
  move_ctor_throws :: "'a \<Rightarrow> bool"
  copy_assign_throws :: "'a \<Rightarrow> 'a \<Rightarrow> bool"
  move_assign_throws :: "'a \<Rightarrow> 'a \<Rightarrow> bool"
  moved_from :: "'a \<Rightarrow> 'a"
  is_nothrow_move_constructible :: bool
  is_copy_constructible :: bool
  can_allocate :: "nat \<Rightarrow> bool"

datatype exn = BadAlloc | ElementFailure

text \<open>
  How a call ends: it returns its result (\<open>Ok\<close>), an exception leaves it and the
  caller sees the state left behind (\<open>Throw\<close>), an \<^verbatim>\<open>assert\<close> fails and the program stops
  (\<open>AssertFailed\<close>), or the call reads or writes a slot it must not touch, which C++
  leaves undefined (\<open>Undefined\<close>).
\<close>

datatype ('r, 's) outcome = Ok 'r | Throw exn 's | AssertFailed | Undefined

text \<open>The result of running a constructor \<open>T(args...)\<close>: a value, or an exception.\<close>

datatype 'a init = Constructs 'a | Throws

text \<open>\<open>size_t\<close> is 64 bits wide; arithmetic on it wraps.\<close>

definition size_max :: nat where
  "size_max = 2 ^ 64 - 1"

definition wrap :: "nat \<Rightarrow> nat" where
  "wrap n = n mod (size_max + 1)"

section \<open>Slots of raw storage and the standard algorithms on them\<close>

text \<open>
  A slot of a block is either raw (\<open>None\<close>: no object has been constructed there) or
  holds a live object (\<open>Some x\<close>). Pointers into a block are offsets from its start.
\<close>

type_synonym 'a slot = "'a option"

definition live_at :: "'a slot list \<Rightarrow> nat \<Rightarrow> bool" where
  "live_at buf i \<longleftrightarrow> i < length buf \<and> buf ! i \<noteq> None"

definition raw_at :: "'a slot list \<Rightarrow> nat \<Rightarrow> bool" where
  "raw_at buf i \<longleftrightarrow> i < length buf \<and> buf ! i = None"

text \<open>\<^verbatim>\<open>std::destroy_n(first, n)\<close>; \<open>None\<close> when a slot of the range holds no object.\<close>

fun destroy_n :: "'a slot list \<Rightarrow> nat \<Rightarrow> nat \<Rightarrow> 'a slot list option" where
  "destroy_n buf first 0 = Some buf"
| "destroy_n buf first (Suc n) =
     (if live_at buf first then destroy_n (buf[first := None]) (Suc first) n else None)"

text \<open>
  \<^verbatim>\<open>std::uninitialized_value_construct_n(first, n)\<close>. When a constructor throws, the
  objects the call has constructed are destroyed and the exception goes on: each level
  of the recursion undoes its own construction.
\<close>

fun uninitialized_value_construct_n ::
  "'a env \<Rightarrow> 'a slot list \<Rightarrow> nat \<Rightarrow> nat \<Rightarrow> ('a slot list, 'a slot list) outcome" where
  "uninitialized_value_construct_n E buf first 0 = Ok buf"
| "uninitialized_value_construct_n E buf first (Suc n) =
     (if \<not> raw_at buf first then Undefined
      else if value_init_throws E then Throw ElementFailure buf
      else (case uninitialized_value_construct_n E (buf[first := Some (value_init E)]) (Suc first) n of
              Ok b \<Rightarrow> Ok b
            | Throw e b \<Rightarrow> Throw e (b[first := None])
            | AssertFailed \<Rightarrow> AssertFailed
            | Undefined \<Rightarrow> Undefined))"

text \<open>
  \<^verbatim>\<open>std::uninitialized_copy_n(first, n, d_first)\<close> from the block \<open>src\<close> into another
  block \<open>dst\<close>; the source is not changed.
\<close>

fun uninitialized_copy_n ::
  "'a env \<Rightarrow> 'a slot list \<Rightarrow> nat \<Rightarrow> nat \<Rightarrow> 'a slot list \<Rightarrow> nat \<Rightarrow> ('a slot list, 'a slot list) outcome" where
  "uninitialized_copy_n E src first 0 dst d_first = Ok dst"
| "uninitialized_copy_n E src first (Suc n) dst d_first =
     (if \<not> (live_at src first \<and> raw_at dst d_first) then Undefined
      else if copy_ctor_throws E (the (src ! first)) then Throw ElementFailure dst
      else (case uninitialized_copy_n E src (Suc first) n (dst[d_first := src ! first]) (Suc d_first) of
              Ok b \<Rightarrow> Ok b
            | Throw e b \<Rightarrow> Throw e (b[d_first := None])
            | AssertFailed \<Rightarrow> AssertFailed
            | Undefined \<Rightarrow> Undefined))"

text \<open>
  \<^verbatim>\<open>std::uninitialized_move_n(first, n, d_first)\<close> from the block \<open>src\<close> into another
  block \<open>dst\<close>. The sources are left moved-from, also those already moved when a later
  move throws.
\<close>

fun uninitialized_move_n ::
  "'a env \<Rightarrow> 'a slot list \<Rightarrow> nat \<Rightarrow> nat \<Rightarrow> 'a slot list \<Rightarrow> nat
     \<Rightarrow> ('a slot list \<times> 'a slot list, 'a slot list \<times> 'a slot list) outcome" where
  "uninitialized_move_n E src first 0 dst d_first = Ok (src, dst)"
| "uninitialized_move_n E src first (Suc n) dst d_first =
     (if \<not> (live_at src first \<and> raw_at dst d_first) then Undefined
      else if move_ctor_throws E (the (src ! first)) then Throw ElementFailure (src, dst)
      else (case uninitialized_move_n E
                   (src[first := Some (moved_from E (the (src ! first)))]) (Suc first) n
                   (dst[d_first := src ! first]) (Suc d_first) of
              Ok r \<Rightarrow> Ok r
            | Throw e (s, b) \<Rightarrow> Throw e (s, b[d_first := None])
            | AssertFailed \<Rightarrow> AssertFailed
            | Undefined \<Rightarrow> Undefined))"

text \<open>The same algorithm when source and destination lie in one block.\<close>

fun uninitialized_move_n_within ::
  "'a env \<Rightarrow> 'a slot list \<Rightarrow> nat \<Rightarrow> nat \<Rightarrow> nat \<Rightarrow> ('a slot list, 'a slot list) outcome" where
  "uninitialized_move_n_within E buf first 0 d_first = Ok buf"
| "uninitialized_move_n_within E buf first (Suc n) d_first =
     (if \<not> (live_at buf first \<and> raw_at buf d_first) then Undefined
      else if move_ctor_throws E (the (buf ! first)) then Throw ElementFailure buf
      else (case uninitialized_move_n_within E
                   (buf[first := Some (moved_from E (the (buf ! first))), d_first := buf ! first])
                   (Suc first) n (Suc d_first) of
              Ok b \<Rightarrow> Ok b
            | Throw e b \<Rightarrow> Throw e (b[d_first := None])
            | AssertFailed \<Rightarrow> AssertFailed
            | Undefined \<Rightarrow> Undefined))"

text \<open>
  \<^verbatim>\<open>std::move(first, first + n, d_first)\<close> inside one block: move assignment, front to
  back. A move assignment that throws stops the loop; what was moved stays moved.
\<close>

fun move_range :: "'a env \<Rightarrow> 'a slot list \<Rightarrow> nat \<Rightarrow> nat \<Rightarrow> nat \<Rightarrow> ('a slot list, 'a slot list) outcome" where
  "move_range E buf first 0 d_first = Ok buf"
| "move_range E buf first (Suc n) d_first =
     (if \<not> (live_at buf first \<and> live_at buf d_first) then Undefined
      else if move_assign_throws E (the (buf ! d_first)) (the (buf ! first))
        then Throw ElementFailure buf
      else move_range E
             (buf[first := Some (moved_from E (the (buf ! first))), d_first := buf ! first])
             (Suc first) n (Suc d_first))"

text \<open>
  \<^verbatim>\<open>std::move_backward(first, first + n, d_last)\<close> inside one block: move assignment,
  back to front, the last source first.
\<close>

fun move_backward :: "'a env \<Rightarrow> 'a slot list \<Rightarrow> nat \<Rightarrow> nat \<Rightarrow> nat \<Rightarrow> ('a slot list, 'a slot list) outcome" where
  "move_backward E buf first 0 d_last = Ok buf"
| "move_backward E buf first (Suc n) d_last =
     (if d_last = 0 \<or> \<not> (live_at buf (first + n) \<and> live_at buf (d_last - 1)) then Undefined
      else if move_assign_throws E (the (buf ! (d_last - 1))) (the (buf ! (first + n)))
        then Throw ElementFailure buf
      else move_backward E
             (buf[first + n := Some (moved_from E (the (buf ! (first + n)))),
                  d_last - 1 := buf ! (first + n)])
             first n (d_last - 1))"

text \<open>\<^verbatim>\<open>std::destroy_at(p)\<close>.\<close>

definition destroy_at :: "'a slot list \<Rightarrow> nat \<Rightarrow> 'a slot list option" where
  "destroy_at buf p = (if live_at buf p then Some (buf[p := None]) else None)"

text \<open>Placement new, \<^verbatim>\<open>new (p) T(args...)\<close>.\<close>

definition construct_at :: "'a slot list \<Rightarrow> nat \<Rightarrow> 'a init \<Rightarrow> ('a slot list, 'a slot list) outcome" where
  "construct_at buf p i =
     (case i of
        Throws \<Rightarrow> Throw ElementFailure buf
      | Constructs x \<Rightarrow> if raw_at buf p then Ok (buf[p := Some x]) else Undefined)"

text \<open>\<^verbatim>\<open>*p = std::move(x)\<close> for an object \<open>x\<close> that lives outside the block.\<close>

definition move_assign_at :: "'a env \<Rightarrow> 'a slot list \<Rightarrow> nat \<Rightarrow> 'a \<Rightarrow> ('a slot list, 'a slot list) outcome" where
  "move_assign_at E buf p x =
     (if \<not> live_at buf p then Undefined
      else if move_assign_throws E (the (buf ! p)) x then Throw ElementFailure buf
      else Ok (buf[p := Some x]))"

text \<open>Running the copy or the move constructor of \<open>T\<close> on a value.\<close>

definition copy_init :: "'a env \<Rightarrow> 'a \<Rightarrow> 'a init" where
  "copy_init E x = (if copy_ctor_throws E x then Throws else Constructs x)"

definition move_init :: "'a env \<Rightarrow> 'a \<Rightarrow> 'a init" where
  "move_init E x = (if move_ctor_throws E x then Throws else Constructs x)"

text \<open>
  Sequencing: \<open>f\<close> goes on from a result; an exception passes through, the state it
  leaves seen from the caller by \<open>unwind\<close>.
\<close>

definition and_then ::
  "('r, 's) outcome \<Rightarrow> ('r \<Rightarrow> ('q, 't) outcome) \<Rightarrow> ('s \<Rightarrow> 't) \<Rightarrow> ('q, 't) outcome" where
  "and_then r f unwind =
     (case r of
        Ok s \<Rightarrow> f s
      | Throw e s \<Rightarrow> Throw e (unwind s)
      | AssertFailed \<Rightarrow> AssertFailed
      | Undefined \<Rightarrow> Undefined)"

section \<open>RawMemory\<close>

text \<open>
  \<open>buffer\<close> is the block \<^verbatim>\<open>buffer_\<close> points to (empty for \<^verbatim>\<open>nullptr\<close>), \<open>capacity\<close> is
  \<^verbatim>\<open>capacity_\<close>. \<open>released\<close> is not a field of the class: it lists the offsets of
  this block that were passed to \<^verbatim>\<open>operator delete\<close> while the object still owns the
  block (the \<^verbatim>\<open>catch\<close> in \<open>InsertWithRelocation\<close> does that).
\<close>

record 'a raw_memory =
  buffer :: "'a slot list"
  capacity :: nat
  released :: "nat list"

text \<open>
  \<open>Allocate\<close>: \<^verbatim>\<open>operator new(n * sizeof(T))\<close> for \<open>n \<noteq> 0\<close>, a block of \<open>n\<close> raw slots or
  \<^verbatim>\<open>std::bad_alloc\<close>. The byte count is taken not to wrap: a request that succeeds gives
  room for all \<open>n\<close> elements.
\<close>

definition Allocate :: "'a env \<Rightarrow> nat \<Rightarrow> exn + 'a slot list" where
  "Allocate E n =
     (if n \<noteq> 0 then (if can_allocate E n then Inr (replicate n None) else Inl BadAlloc)
      else Inr [])"

definition RawMemory_default :: "'a raw_memory" where
  "RawMemory_default = \<lparr>buffer = [], capacity = 0, released = []\<rparr>"

definition RawMemory_sized :: "'a env \<Rightarrow> nat \<Rightarrow> exn + 'a raw_memory" where
  "RawMemory_sized E n =
     (case Allocate E n of
        Inl e \<Rightarrow> Inl e
      | Inr b \<Rightarrow> Inr \<lparr>buffer = b, capacity = n, released = []\<rparr>)"

text \<open>\<^verbatim>\<open>RawMemory(RawMemory&& other)\<close>: the new object and what is left of \<open>other\<close>.\<close>

definition RawMemory_move :: "'a raw_memory \<Rightarrow> 'a raw_memory \<times> 'a raw_memory" where
  "RawMemory_move other = (other, RawMemory_default)"

definition RawMemory_Swap :: "'a raw_memory \<Rightarrow> 'a raw_memory \<Rightarrow> 'a raw_memory \<times> 'a raw_memory" where
  "RawMemory_Swap this other = (other, this)"

text \<open>\<^verbatim>\<open>operator+\<close> and \<^verbatim>\<open>operator[]\<close>: the offset, or \<open>None\<close> when the assertion fails.\<close>

definition RawMemory_plus :: "'a raw_memory \<Rightarrow> nat \<Rightarrow> nat option" where
  "RawMemory_plus m offset = (if offset \<le> capacity m then Some offset else None)"

definition RawMemory_index :: "'a raw_memory \<Rightarrow> nat \<Rightarrow> nat option" where
  "RawMemory_index m index = (if index < capacity m then Some index else None)"

section \<open>Vector\<close>

record 'a vector =
  data :: "'a raw_memory"
  size_v :: nat

definition Capacity :: "'a vector \<Rightarrow> nat" where
  "Capacity v = capacity (data v)"

definition Size :: "'a vector \<Rightarrow> nat" where
  "Size v = size_v v"

text \<open>Iterators are offsets into the block of \<open>data\<close>.\<close>

definition begin_v :: "'a vector \<Rightarrow> nat" where
  "begin_v v = 0"

definition end_v :: "'a vector \<Rightarrow> nat" where
  "end_v v = 0 + size_v v"

text \<open>The sequence of live elements, as \<^verbatim>\<open>begin()\<close> to \<^verbatim>\<open>end()\<close> visits them.\<close>

definition elements :: "'a vector \<Rightarrow> 'a list" where
  "elements v = map the (take (size_v v) (buffer (data v)))"

definition set_buffer :: "'a vector \<Rightarrow> 'a slot list \<Rightarrow> 'a vector" where
  "set_buffer v b = v\<lparr>data := (data v)\<lparr>buffer := b\<rparr>\<rparr>"

definition Vector_default :: "'a vector" where
  "Vector_default = \<lparr>data = RawMemory_default, size_v = 0\<rparr>"

text \<open>\<^verbatim>\<open>~Vector()\<close>: whether destroying the live elements is defined.\<close>

definition Vector_destroy :: "'a vector \<Rightarrow> bool" where
  "Vector_destroy v \<longleftrightarrow> destroy_n (buffer (data v)) (begin_v v) (size_v v) \<noteq> None"

text \<open>\<^verbatim>\<open>Vector(size_t size)\<close>. A constructor that throws leaves no object.\<close>

definition Vector_sized :: "'a env \<Rightarrow> nat \<Rightarrow> ('a vector, unit) outcome" where
  "Vector_sized E n =
     (case RawMemory_sized E n of
        Inl e \<Rightarrow> Throw e ()
      | Inr m \<Rightarrow>
          and_then (uninitialized_value_construct_n E (buffer m) 0 n)
            (\<lambda>b. Ok \<lparr>data = m\<lparr>buffer := b\<rparr>, size_v = n\<rparr>)
            (\<lambda>b. ()))"

text \<open>\<^verbatim>\<open>Vector(const Vector& other)\<close>.\<close>

definition Vector_copy :: "'a env \<Rightarrow> 'a vector \<Rightarrow> ('a vector, unit) outcome" where
  "Vector_copy E other =
     (case RawMemory_sized E (size_v other) of
        Inl e \<Rightarrow> Throw e ()
      | Inr m \<Rightarrow>
          and_then (uninitialized_copy_n E (buffer (data other)) (begin_v other) (size_v other)
                      (buffer m) 0)
            (\<lambda>b. Ok \<lparr>data = m\<lparr>buffer := b\<rparr>, size_v = size_v other\<rparr>)
            (\<lambda>b. ()))"

text \<open>\<^verbatim>\<open>Vector(Vector&& other)\<close>: the new object and what is left of \<open>other\<close>.\<close>

definition Vector_move :: "'a vector \<Rightarrow> 'a vector \<times> 'a vector" where
  "Vector_move other =
     (let (m, m') = RawMemory_move (data other)
      in (\<lparr>data = m, size_v = size_v other\<rparr>, \<lparr>data = m', size_v = 0\<rparr>))"

definition Swap :: "'a vector \<Rightarrow> 'a vector \<Rightarrow> 'a vector \<times> 'a vector" where
  "Swap this other =
     (let (m, m') = RawMemory_Swap (data this) (data other)
      in (\<lparr>data = m, size_v = size_v other\<rparr>, \<lparr>data = m', size_v = size_v this\<rparr>))"

text \<open>
  Relocation of \<open>n\<close> elements from offset \<open>first\<close> of the vector's block to offset
  \<open>d_first\<close> of the local \<open>new_data\<close>: by move when the move constructor cannot throw or
  there is no copy constructor, by copy otherwise (the \<^verbatim>\<open>if constexpr\<close> of
  \<open>FillNewData\<close> and of \<open>InsertWithoutRelocation\<close>). The state is the vector together
  with \<open>new_data\<close>.
\<close>

definition relocate ::
  "'a env \<Rightarrow> nat \<Rightarrow> nat \<Rightarrow> nat \<Rightarrow> 'a vector \<times> 'a raw_memory
     \<Rightarrow> ('a vector \<times> 'a raw_memory, 'a vector \<times> 'a raw_memory) outcome" where
  "relocate E first n d_first st =
     (case st of (v, new_data) \<Rightarrow>
        if is_nothrow_move_constructible E \<or> \<not> is_copy_constructible E then
          map_outcome (\<lambda>(s, b). (set_buffer v s, new_data\<lparr>buffer := b\<rparr>))
                      (\<lambda>(s, b). (set_buffer v s, new_data\<lparr>buffer := b\<rparr>))
            (uninitialized_move_n E (buffer (data v)) first n (buffer new_data) d_first)
        else
          map_outcome (\<lambda>b. (v, new_data\<lparr>buffer := b\<rparr>))
                      (\<lambda>b. (v, new_data\<lparr>buffer := b\<rparr>))
            (uninitialized_copy_n E (buffer (data v)) first n (buffer new_data) d_first))"

definition FillNewData ::
  "'a env \<Rightarrow> 'a vector \<times> 'a raw_memory \<Rightarrow> nat
     \<Rightarrow> ('a vector \<times> 'a raw_memory, 'a vector \<times> 'a raw_memory) outcome" where
  "FillNewData E st pos = relocate E (begin_v (fst st)) pos 0 st"

text \<open>
  The end of \<open>Reserve\<close> and of \<open>InsertWithoutRelocation\<close>: destroy the old elements, swap
  the blocks; the local \<open>new_data\<close>, now holding the old block, goes out of scope.
\<close>

definition adopt :: "'a vector \<times> 'a raw_memory \<Rightarrow> ('a vector, 'a vector) outcome" where
  "adopt st =
     (case st of (v, new_data) \<Rightarrow>
        (case destroy_n (buffer (data v)) (begin_v v) (size_v v) of
           None \<Rightarrow> Undefined
         | Some b \<Rightarrow> Ok (v\<lparr>data := fst (RawMemory_Swap ((data v)\<lparr>buffer := b\<rparr>) new_data)\<rparr>)))"

definition Reserve :: "'a env \<Rightarrow> 'a vector \<Rightarrow> nat \<Rightarrow> ('a vector, 'a vector) outcome" where
  "Reserve E v new_capacity =
     (if new_capacity \<le> Capacity v then Ok v
      else (case RawMemory_sized E new_capacity of
              Inl e \<Rightarrow> Throw e v
            | Inr new_data \<Rightarrow> and_then (FillNewData E (v, new_data) (size_v v)) adopt fst))"

definition Resize :: "'a env \<Rightarrow> 'a vector \<Rightarrow> nat \<Rightarrow> ('a vector, 'a vector) outcome" where
  "Resize E v new_size =
     (if new_size < size_v v then
        (case destroy_n (buffer (data v)) (begin_v v + new_size) (size_v v - new_size) of
           None \<Rightarrow> Undefined
         | Some b \<Rightarrow> Ok ((set_buffer v b)\<lparr>size_v := new_size\<rparr>))
      else
        and_then
          (if new_size > Capacity v
           then Reserve E v (max (wrap (Capacity v * 2)) new_size)
           else Ok v)
          (\<lambda>v1. and_then
                  (uninitialized_value_construct_n E (buffer (data v1)) (end_v v1)
                     (new_size - size_v v1))
                  (\<lambda>b. Ok ((set_buffer v1 b)\<lparr>size_v := new_size\<rparr>))
                  (set_buffer v1))
          id)"

definition PopBack :: "'a vector \<Rightarrow> ('a vector, 'a vector) outcome" where
  "PopBack v =
     (if size_v v = 0 then AssertFailed
      else (case destroy_at (buffer (data v)) (end_v v - 1) of
              None \<Rightarrow> Undefined
            | Some b \<Rightarrow> Ok ((set_buffer v b)\<lparr>size_v := size_v v - 1\<rparr>)))"

text \<open>\<^verbatim>\<open>Vector::operator[]\<close>: the slot it refers to, or \<open>None\<close> when an assertion fails.\<close>

definition Vector_index :: "'a vector \<Rightarrow> nat \<Rightarrow> nat option" where
  "Vector_index v index = (if index < size_v v then RawMemory_index (data v) index else None)"

text \<open>
  The \<^verbatim>\<open>catch (...)\<close> of \<open>InsertWithRelocation\<close>: \<^verbatim>\<open>operator delete (end())\<close>, then the
  exception is thrown again. No destructor runs. \<open>end()\<close> is an address inside the block
  unless the vector is empty, and C++ defines \<^verbatim>\<open>operator delete\<close> only for an address that
  \<^verbatim>\<open>operator new\<close> returned; the model records the call in \<open>released\<close> and goes on, so
  that what the rollback leaves in the slots can be stated.
\<close>

definition rollback :: "'a vector \<Rightarrow> 'a vector" where
  "rollback v = v\<lparr>data := (data v)\<lparr>released := released (data v) @ [end_v v]\<rparr>\<rparr>"

text \<open>
  \<open>InsertWithRelocation\<close>, called when \<^verbatim>\<open>size_ != Capacity()\<close>: the insertion into the
  spare capacity of the block. Everything happens inside the \<^verbatim>\<open>try\<close>, so every exception
  goes through \<open>rollback\<close>.
\<close>

definition InsertWithRelocation ::
  "'a env \<Rightarrow> 'a vector \<Rightarrow> nat \<Rightarrow> nat \<Rightarrow> 'a init \<Rightarrow> ('a vector, 'a vector) outcome" where
  "InsertWithRelocation E v iterator_pos pos args =
     (if pos \<noteq> end_v v then
        (case args of
           Throws \<Rightarrow> Throw ElementFailure (rollback v)
         | Constructs temporary_obj \<Rightarrow>
             and_then
               (uninitialized_move_n_within E (buffer (data v)) (end_v v - 1) 1 (end_v v))
               (\<lambda>b1. case RawMemory_plus (data v) iterator_pos of
                        None \<Rightarrow> AssertFailed
                      | Some first \<Rightarrow>
                          and_then
                            (move_backward E b1 first (end_v v - 1 - first) (end_v v))
                            (\<lambda>b2. case RawMemory_index (data v) iterator_pos of
                                     None \<Rightarrow> AssertFailed
                                   | Some p \<Rightarrow>
                                       and_then (move_assign_at E b2 p temporary_obj)
                                         (\<lambda>b3. Ok (set_buffer v b3))
                                         (\<lambda>b3. rollback (set_buffer v b3)))
                            (\<lambda>b2. rollback (set_buffer v b2)))
               (\<lambda>b1. rollback (set_buffer v b1)))
      else
        and_then (construct_at (buffer (data v)) (end_v v) args)
          (\<lambda>b. Ok (set_buffer v b))
          (\<lambda>b. rollback (set_buffer v b)))"

text \<open>
  \<open>InsertWithoutRelocation\<close>, called when \<^verbatim>\<open>size_ == Capacity()\<close>: a new block of twice
  the size (of one slot for an empty vector), the new element constructed in its place
  there, the old elements relocated around it. An exception before the swap leaves the
  vector's own block as the relocation left it; \<open>new_data\<close> is given back.
\<close>

definition InsertWithoutRelocation ::
  "'a env \<Rightarrow> 'a vector \<Rightarrow> nat \<Rightarrow> nat \<Rightarrow> 'a init \<Rightarrow> ('a vector, 'a vector) outcome" where
  "InsertWithoutRelocation E v iterator_pos pos args =
     (case RawMemory_sized E (if size_v v = 0 then 1 else wrap (size_v v * 2)) of
        Inl e \<Rightarrow> Throw e v
      | Inr new_data \<Rightarrow>
          and_then (construct_at (buffer new_data) (0 + iterator_pos) args)
            (\<lambda>b. and_then (FillNewData E (v, new_data\<lparr>buffer := b\<rparr>) iterator_pos)
                    (\<lambda>st. and_then
                             (relocate E (begin_v v + iterator_pos) (size_v v - iterator_pos)
                                (0 + iterator_pos + 1) st)
                             adopt fst)
                    fst)
            (\<lambda>b. v))"

text \<open>
  \<open>Emplace\<close>. \<open>pos\<close> must lie in \<^verbatim>\<open>[begin(), end()]\<close>; the code does not check it, and
  \<^verbatim>\<open>pos - begin()\<close> is undefined otherwise. The result is the vector and the returned
  iterator.
\<close>

definition Emplace ::
  "'a env \<Rightarrow> 'a vector \<Rightarrow> nat \<Rightarrow> 'a init \<Rightarrow> ('a vector \<times> nat, 'a vector) outcome" where
  "Emplace E v pos args =
     (if pos < begin_v v \<or> end_v v < pos then Undefined
      else
        (let iterator_pos = pos - begin_v v in
           and_then
             (if size_v v = Capacity v
              then InsertWithoutRelocation E v iterator_pos pos args
              else InsertWithRelocation E v iterator_pos pos args)
             (\<lambda>v1. Ok (v1\<lparr>size_v := wrap (size_v v1 + 1)\<rparr>, begin_v v1 + iterator_pos))
             id))"

definition Erase :: "'a env \<Rightarrow> 'a vector \<Rightarrow> nat \<Rightarrow> ('a vector \<times> nat, 'a vector) outcome" where
  "Erase E v pos =
     (if \<not> (pos \<ge> begin_v v \<and> pos < end_v v) then AssertFailed
      else
        (let iterator_pos = pos - begin_v v in
           and_then
             (move_range E (buffer (data v)) (begin_v v + iterator_pos + 1)
                (end_v v - (begin_v v + iterator_pos + 1)) (begin_v v + iterator_pos))
             (\<lambda>b. and_then (PopBack (set_buffer v b))
                     (\<lambda>v1. Ok (v1, begin_v v1 + iterator_pos))
                     id)
             (set_buffer v)))"

text \<open>
  \<^verbatim>\<open>Insert(pos, const T&)\<close> and \<^verbatim>\<open>Insert(pos, T&&)\<close>: \<open>Emplace\<close> with the copy or the move
  constructor. Both paths of \<open>Emplace\<close> construct the new element before they touch an
  old one, so the value \<open>x\<close> is the value the argument has at the call; an rvalue
  argument is taken to be an object outside the vector.
\<close>

definition Insert_copy ::
  "'a env \<Rightarrow> 'a vector \<Rightarrow> nat \<Rightarrow> 'a \<Rightarrow> ('a vector \<times> nat, 'a vector) outcome" where
  "Insert_copy E v pos x = Emplace E v pos (copy_init E x)"

definition Insert_move ::
  "'a env \<Rightarrow> 'a vector \<Rightarrow> nat \<Rightarrow> 'a \<Rightarrow> ('a vector \<times> nat, 'a vector) outcome" where
  "Insert_move E v pos x = Emplace E v pos (move_init E x)"

text \<open>\<open>EmplaceBack\<close>: the vector and the slot the returned reference refers to.\<close>

definition EmplaceBack ::
  "'a env \<Rightarrow> 'a vector \<Rightarrow> 'a init \<Rightarrow> ('a vector \<times> nat, 'a vector) outcome" where
  "EmplaceBack E v args = Emplace E v (end_v v) args"

text \<open>\<open>PushBack\<close> of an lvalue and of an rvalue.\<close>

definition PushBack_copy :: "'a env \<Rightarrow> 'a vector \<Rightarrow> 'a \<Rightarrow> ('a vector, 'a vector) outcome" where
  "PushBack_copy E v x = map_outcome fst id (EmplaceBack E v (copy_init E x))"

definition PushBack_move :: "'a env \<Rightarrow> 'a vector \<Rightarrow> 'a \<Rightarrow> ('a vector, 'a vector) outcome" where
  "PushBack_move E v x = map_outcome fst id (EmplaceBack E v (move_init E x))"

subsection \<open>Assignment\<close>

text \<open>
  The loop \<^verbatim>\<open>for (; pos < std::min(size_, rhs.size_); ++pos) data_[pos] = rhs.data_[pos];\<close>
  with \<open>n\<close> the number of rounds left. Both \<^verbatim>\<open>operator[]\<close> are \<open>RawMemory\<close>'s, with its
  assertion.
\<close>

fun copy_assign_loop ::
  "'a env \<Rightarrow> 'a raw_memory \<Rightarrow> 'a raw_memory \<Rightarrow> nat \<Rightarrow> nat \<Rightarrow> ('a raw_memory, 'a raw_memory) outcome" where
  "copy_assign_loop E d r pos 0 = Ok d"
| "copy_assign_loop E d r pos (Suc n) =
     (case (RawMemory_index d pos, RawMemory_index r pos) of
        (Some p, Some q) \<Rightarrow>
          if \<not> (live_at (buffer d) p \<and> live_at (buffer r) q) then Undefined
          else if copy_assign_throws E (the (buffer d ! p)) (the (buffer r ! q))
            then Throw ElementFailure d
          else copy_assign_loop E (d\<lparr>buffer := (buffer d)[p := buffer r ! q]\<rparr>) r (Suc pos) n
      | _ \<Rightarrow> AssertFailed)"

text \<open>
  The body of the copy assignment under \<^verbatim>\<open>this != &rhs\<close>. In the first branch the local
  \<open>copied_rhs\<close> holds the old contents after the swap and is destroyed at the end of
  the block.
\<close>

definition copy_assign :: "'a env \<Rightarrow> 'a vector \<Rightarrow> 'a vector \<Rightarrow> ('a vector, 'a vector) outcome" where
  "copy_assign E this rhs =
     (if size_v rhs > Capacity this then
        and_then (Vector_copy E rhs)
          (\<lambda>copied_rhs.
             (case Swap this copied_rhs of (this1, copied_rhs1) \<Rightarrow>
                if Vector_destroy copied_rhs1 then Ok this1 else Undefined))
          (\<lambda>u. this)
      else
        and_then
          (copy_assign_loop E (data this) (data rhs) 0 (min (size_v this) (size_v rhs)))
          (\<lambda>d.
             (let pos = min (size_v this) (size_v rhs); this1 = this\<lparr>data := d\<rparr> in
                if size_v this > size_v rhs then
                  (case RawMemory_index d (size_v rhs) of
                     None \<Rightarrow> AssertFailed
                   | Some first \<Rightarrow>
                       (case destroy_n (buffer d) first (size_v this - size_v rhs) of
                          None \<Rightarrow> Undefined
                        | Some b \<Rightarrow> Ok ((set_buffer this1 b)\<lparr>size_v := size_v rhs\<rparr>)))
                else
                  (case (RawMemory_index (data rhs) pos, RawMemory_index d pos) of
                     (Some first, Some d_first) \<Rightarrow>
                       and_then
                         (uninitialized_copy_n E (buffer (data rhs)) first
                            (size_v rhs - size_v this) (buffer d) d_first)
                         (\<lambda>b. Ok ((set_buffer this1 b)\<lparr>size_v := size_v rhs\<rparr>))
                         (set_buffer this1)
                   | _ \<Rightarrow> AssertFailed)))
          (\<lambda>d. this\<lparr>data := d\<rparr>))"

text \<open>
  The two assignment operators compare addresses, so they are modelled on a store of
  vectors: \<open>this\<close> and \<open>rhs\<close> are the addresses of the two operands.
\<close>

type_synonym 'a store = "nat \<Rightarrow> 'a vector"

definition assign_copy ::
  "'a env \<Rightarrow> 'a store \<Rightarrow> nat \<Rightarrow> nat \<Rightarrow> ('a store, 'a store) outcome" where
  "assign_copy E st this rhs =
     (if this \<noteq> rhs
      then map_outcome (\<lambda>v. st(this := v)) (\<lambda>v. st(this := v)) (copy_assign E (st this) (st rhs))
      else Ok st)"

definition assign_move :: "'a store \<Rightarrow> nat \<Rightarrow> nat \<Rightarrow> 'a store" where
  "assign_move st this rhs =
     (if this \<noteq> rhs
      then (case Swap (st this) (st rhs) of (a, b) \<Rightarrow> st(this := a, rhs := b))
      else st)"

section \<open>The structural invariant and the contents of a vector\<close>

text \<open>
  The invariant of the container: the size does not exceed the capacity, the block has
  \<open>capacity\<close> slots, the slots below \<open>size_v\<close> hold live objects and the slots from
  \<open>size_v\<close> on are raw.
\<close>

definition struct_inv :: "'a vector \<Rightarrow> bool" where
  "struct_inv v \<longleftrightarrow>
     size_v v \<le> Capacity v \<and> length (buffer (data v)) = Capacity v \<and>
     list_all (\<lambda>s. s \<noteq> None) (take (size_v v) (buffer (data v))) \<and>
     list_all (\<lambda>s. s = None) (drop (size_v v) (buffer (data v)))"

text \<open>
  No object is larger than \<open>PTRDIFF_MAX\<close> bytes, so a block that exists has at most
  that many slots; then neither \<^verbatim>\<open>Capacity() * 2\<close> nor \<^verbatim>\<open>size_ * 2\<close> wraps.
\<close>

definition ptrdiff_max :: nat where
  "ptrdiff_max = 2 ^ 63 - 1"

definition in_address_space :: "'a vector \<Rightarrow> bool" where
  "in_address_space v \<longleftrightarrow> Capacity v \<le> ptrdiff_max"

text \<open>An allocator that respects this bound.\<close>

definition bounded_allocator :: "'a env \<Rightarrow> bool" where
  "bounded_allocator E \<longleftrightarrow> (\<forall>n. can_allocate E n \<longrightarrow> n \<le> ptrdiff_max)"

text \<open>
  The block that holds the elements \<open>xs\<close> in its first slots and nothing else, and the
  vector with that block: every vector that satisfies the invariant has this form.
\<close>

definition slots :: "'a list \<Rightarrow> nat \<Rightarrow> 'a slot list" where
  "slots xs cap = map Some xs @ replicate (cap - length xs) None"

definition make_vector :: "'a list \<Rightarrow> nat \<Rightarrow> nat list \<Rightarrow> 'a vector" where
  "make_vector xs cap rel =
     \<lparr>data = \<lparr>buffer = slots xs cap, capacity = cap, released = rel\<rparr>, size_v = length xs\<rparr>"

text \<open>Which slots of a block are live.\<close>

definition liveness :: "'a slot list \<Rightarrow> bool list" where
  "liveness buf = map (\<lambda>s. s \<noteq> None) buf"

text \<open>The capacity after an insertion: doubled (one for an empty vector) when the block was full.\<close>

definition grown_capacity :: "'a vector \<Rightarrow> nat" where
  "grown_capacity v =
     (if size_v v = Capacity v then (if size_v v = 0 then 1 else 2 * size_v v) else Capacity v)"

text \<open>An element type none of whose operations throws.\<close>

definition never_throws :: "'a env \<Rightarrow> bool" where
  "never_throws E \<longleftrightarrow>
     \<not> value_init_throws E \<and> (\<forall>x. \<not> copy_ctor_throws E x) \<and> (\<forall>x. \<not> move_ctor_throws E x) \<and>
     (\<forall>d s. \<not> copy_assign_throws E d s) \<and> (\<forall>d s. \<not> move_assign_throws E d s)"

text \<open>Whether \<open>relocate\<close> takes the move path for this element type.\<close>

definition relocates_by_move :: "'a env \<Rightarrow> bool" where
  "relocates_by_move E \<longleftrightarrow> is_nothrow_move_constructible E \<or> \<not> is_copy_constructible E"

subsection \<open>Two element types\<close>

text \<open>
  \<^verbatim>\<open>int\<close>: four bytes, nothing throws, a moved-from \<^verbatim>\<open>int\<close> keeps its value; the
  allocator serves every request of at most \<open>PTRDIFF_MAX\<close> bytes.
\<close>

definition int_env :: "int env" where
  "int_env =
     \<lparr>value_init = 0, value_init_throws = False, copy_ctor_throws = (\<lambda>x. False),
      move_ctor_throws = (\<lambda>x. False), copy_assign_throws = (\<lambda>d s. False),
      move_assign_throws = (\<lambda>d s. False), moved_from = (\<lambda>x. x),
      is_nothrow_move_constructible = True, is_copy_constructible = True,
      can_allocate = (\<lambda>n. n * 4 \<le> ptrdiff_max)\<rparr>"

text \<open>
  A class that wraps an \<^verbatim>\<open>int\<close> handle: its move constructor is \<^verbatim>\<open>noexcept\<close> and leaves
  the source with handle 0, its move assignment throws.
\<close>

definition handle_env :: "int env" where
  "handle_env = int_env\<lparr>move_assign_throws := (\<lambda>d s. True), moved_from := (\<lambda>x. 0)\<rparr>"

section \<open>Lemmas about the model\<close>

subsection \<open>The algorithms on slots\<close>

lemma destroy_n_length: "destroy_n buf f n = Some b \<Longrightarrow> length b = length buf"
  by (induction n arbitrary: buf f) (auto split: if_splits)

lemma destroy_n_nth:
  "destroy_n buf f n = Some b \<Longrightarrow> i < length buf \<Longrightarrow>
   b ! i = (if f \<le> i \<and> i < f + n then None else buf ! i)"
proof (induction n arbitrary: buf f)
  case 0
  then show ?case by auto
next
  case (Suc n)
  from Suc.prems have live: "live_at buf f"
    and rec: "destroy_n (buf[f := None]) (Suc f) n = Some b"
    by (auto split: if_splits)
  from Suc.IH[OF rec] Suc.prems(2)
  have "b ! i = (if Suc f \<le> i \<and> i < Suc f + n then None else (buf[f := None]) ! i)"
    by simp
  then show ?case using Suc.prems(2) by (auto simp: nth_list_update)
qed

lemma destroy_n_total:
  "(\<And>i. f \<le> i \<Longrightarrow> i < f + n \<Longrightarrow> live_at buf i) \<Longrightarrow> \<exists>b. destroy_n buf f n = Some b"
proof (induction n arbitrary: buf f)
  case 0
  then show ?case by auto
next
  case (Suc n)
  have "live_at buf f" using Suc.prems[of f] by simp
  moreover have "\<exists>b. destroy_n (buf[f := None]) (Suc f) n = Some b"
  proof (rule Suc.IH)
    fix i assume "Suc f \<le> i" "i < Suc f + n"
    then show "live_at (buf[f := None]) i"
      using Suc.prems[of i] by (simp add: live_at_def)
  qed
  ultimately show ?case by simp
qed

lemma value_construct_length:
  "uninitialized_value_construct_n E buf f n = Ok b \<Longrightarrow> length b = length buf"
  by (induction n arbitrary: buf f) (auto split: if_splits outcome.splits)

lemma value_construct_nth:
  "uninitialized_value_construct_n E buf f n = Ok b \<Longrightarrow> i < length buf \<Longrightarrow>
   b ! i = (if f \<le> i \<and> i < f + n then Some (value_init E) else buf ! i)"
proof (induction n arbitrary: buf f)
  case 0
  then show ?case by auto
next
  case (Suc n)
  from Suc.prems have rec:
    "uninitialized_value_construct_n E (buf[f := Some (value_init E)]) (Suc f) n = Ok b"
    by (auto split: if_splits outcome.splits)
  from Suc.IH[OF rec] Suc.prems(2) show ?case by (auto simp: nth_list_update)
qed

lemma uninit_copy_length:
  "uninitialized_copy_n E src f n dst d = Ok b \<Longrightarrow> length b = length dst"
  by (induction n arbitrary: dst f d) (auto split: if_splits outcome.splits)

lemma uninit_copy_nth:
  "uninitialized_copy_n E src f n dst d = Ok b \<Longrightarrow> i < length dst \<Longrightarrow>
   b ! i = (if d \<le> i \<and> i < d + n then src ! (f + (i - d)) else dst ! i)"
proof (induction n arbitrary: dst f d)
  case 0
  then show ?case by auto
next
  case (Suc n)
  from Suc.prems have rec:
    "uninitialized_copy_n E src (Suc f) n (dst[d := src ! f]) (Suc d) = Ok b"
    by (auto split: if_splits outcome.splits)
  have a: "Suc d \<le> i \<Longrightarrow> Suc (f + i - Suc d) = f + i - d" by arith
  from Suc.IH[OF rec] Suc.prems(2) show ?case
    by (cases "i = d") (auto simp: nth_list_update a)
qed

lemma uninit_move_length:
  "uninitialized_move_n E src f n dst d = Ok (s, b) \<Longrightarrow> length b = length dst \<and> length s = length src"
  by (induction n arbitrary: src dst f d) (auto split: if_splits outcome.splits)

lemma uninit_move_dst_nth:
  "uninitialized_move_n E src f n dst d = Ok (s, b) \<Longrightarrow> i < length dst \<Longrightarrow>
   b ! i = (if d \<le> i \<and> i < d + n then src ! (f + (i - d)) else dst ! i)"
proof (induction n arbitrary: src dst f d)
  case 0
  then show ?case by auto
next
  case (Suc n)
  let ?src = "src[f := Some (moved_from E (the (src ! f)))]"
  from Suc.prems have rec:
    "uninitialized_move_n E ?src (Suc f) n (dst[d := src ! f]) (Suc d) = Ok (s, b)"
    by (auto split: if_splits outcome.splits)
  have a: "Suc d \<le> i \<Longrightarrow> Suc (f + i - Suc d) = f + i - d" by arith
  from Suc.IH[OF rec] Suc.prems(2) show ?case
    by (cases "i = d") (auto simp: nth_list_update a)
qed

lemma uninit_move_src_nth:
  "uninitialized_move_n E src f n dst d = Ok (s, b) \<Longrightarrow> i < length src \<Longrightarrow>
   s ! i = (if f \<le> i \<and> i < f + n then Some (moved_from E (the (src ! i))) else src ! i)"
proof (induction n arbitrary: src dst f d)
  case 0
  then show ?case by auto
next
  case (Suc n)
  let ?src = "src[f := Some (moved_from E (the (src ! f)))]"
  from Suc.prems have rec:
    "uninitialized_move_n E ?src (Suc f) n (dst[d := src ! f]) (Suc d) = Ok (s, b)"
    by (auto split: if_splits outcome.splits)
  from Suc.IH[OF rec] Suc.prems(2) show ?case
    by (cases "i = f") (auto simp: nth_list_update)
qed

lemma move_range_length:
  "move_range E buf f n d = Ok b \<Longrightarrow> length b = length buf"
  by (induction n arbitrary: buf f d) (auto split: if_splits)

lemma move_range_nth:
  "move_range E buf (Suc d) n d = Ok b \<Longrightarrow> i < length buf \<Longrightarrow>
   b ! i = (if d \<le> i \<and> i < d + n then buf ! Suc i
            else if i = d + n \<and> 0 < n then Some (moved_from E (the (buf ! i)))
            else buf ! i)"
proof (induction n arbitrary: buf d)
  case 0
  then show ?case by auto
next
  case (Suc n)
  let ?buf = "buf[Suc d := Some (moved_from E (the (buf ! Suc d))), d := buf ! Suc d]"
  from Suc.prems have rec: "move_range E ?buf (Suc (Suc d)) n (Suc d) = Ok b"
    and live: "live_at buf (Suc d)" "live_at buf d"
    by (auto split: if_splits)
  from Suc.IH[OF rec] Suc.prems(2) live show ?case
    by (auto simp: nth_list_update live_at_def)
qed

lemma move_backward_length:
  "move_backward E buf f n d = Ok b \<Longrightarrow> length b = length buf"
  by (induction n arbitrary: buf d) (auto split: if_splits)

lemma move_backward_nth:
  "move_backward E buf f n (Suc (f + n)) = Ok b \<Longrightarrow> i < length buf \<Longrightarrow>
   b ! i = (if f < i \<and> i \<le> f + n then buf ! (i - 1)
            else if i = f \<and> 0 < n then Some (moved_from E (the (buf ! i)))
            else buf ! i)"
proof (induction n arbitrary: buf)
  case 0
  then show ?case by auto
next
  case (Suc n)
  let ?buf = "buf[f + n := Some (moved_from E (the (buf ! (f + n)))), Suc (f + n) := buf ! (f + n)]"
  from Suc.prems have rec: "move_backward E ?buf f n (Suc (f + n)) = Ok b"
    and live: "live_at buf (f + n)" "live_at buf (Suc (f + n))"
    by (auto split: if_splits)
  from Suc.IH[OF rec] Suc.prems(2) live show ?case
    by (auto simp: nth_list_update live_at_def)
qed

subsection \<open>Vectors that satisfy the invariant\<close>

lemma length_slots [simp]: "length xs \<le> cap \<Longrightarrow> length (slots xs cap) = cap"
  by (simp add: slots_def)

lemma slots_nth:
  "length xs \<le> cap \<Longrightarrow> i < cap \<Longrightarrow> slots xs cap ! i = (if i < length xs then Some (xs ! i) else None)"
  by (simp add: slots_def nth_append)

lemma struct_inv_live: "struct_inv v \<Longrightarrow> i < size_v v \<Longrightarrow> live_at (buffer (data v)) i"
  by (auto simp: struct_inv_def live_at_def list_all_length)

lemma struct_inv_raw:
  "struct_inv v \<Longrightarrow> size_v v \<le> i \<Longrightarrow> i < Capacity v \<Longrightarrow> raw_at (buffer (data v)) i"
proof -
  assume inv: "struct_inv v" and i: "size_v v \<le> i" "i < Capacity v"
  then have "i - size_v v < length (drop (size_v v) (buffer (data v)))"
    by (simp add: struct_inv_def)
  with inv have "drop (size_v v) (buffer (data v)) ! (i - size_v v) = None"
    by (simp only: struct_inv_def list_all_length)
  with inv i show ?thesis by (simp add: raw_at_def struct_inv_def)
qed

lemma length_elements: "struct_inv v \<Longrightarrow> length (elements v) = size_v v"
  by (simp add: elements_def struct_inv_def)

lemma elements_nth:
  "struct_inv v \<Longrightarrow> i < size_v v \<Longrightarrow> buffer (data v) ! i = Some (elements v ! i)"
  using struct_inv_live[of v i] by (auto simp: elements_def live_at_def struct_inv_def)

lemma struct_inv_buffer:
  assumes "struct_inv v"
  shows "buffer (data v) = slots (elements v) (Capacity v)"
proof (rule nth_equalityI)
  have "length (elements v) \<le> Capacity v"
    using assms by (simp add: length_elements struct_inv_def)
  then show "length (buffer (data v)) = length (slots (elements v) (Capacity v))"
    using assms by (simp add: struct_inv_def)
next
  fix i assume "i < length (buffer (data v))"
  then have i: "i < Capacity v" using assms by (simp add: struct_inv_def)
  have le: "length (elements v) \<le> Capacity v"
    using assms by (simp add: length_elements struct_inv_def)
  show "buffer (data v) ! i = slots (elements v) (Capacity v) ! i"
  proof (cases "i < size_v v")
    case True
    then show ?thesis using assms i le by (simp add: slots_nth length_elements elements_nth)
  next
    case False
    then have "raw_at (buffer (data v)) i" using assms i by (simp add: struct_inv_raw)
    then show ?thesis using False assms i le by (simp add: slots_nth length_elements raw_at_def)
  qed
qed

lemma struct_inv_make_vector:
  "struct_inv v \<Longrightarrow> v = make_vector (elements v) (Capacity v) (released (data v))"
  by (simp add: make_vector_def length_elements flip: struct_inv_buffer) (simp add: Capacity_def)

lemma make_vector_inv: "length xs \<le> cap \<Longrightarrow> struct_inv (make_vector xs cap rel)"
  by (simp add: struct_inv_def make_vector_def Capacity_def slots_def list_all_length)

lemma elements_make_vector [simp]: "elements (make_vector xs cap rel) = xs"
  by (simp add: elements_def make_vector_def slots_def comp_def)

lemma make_vector_simps [simp]:
  "size_v (make_vector xs cap rel) = length xs"
  "Capacity (make_vector xs cap rel) = cap"
  "released (data (make_vector xs cap rel)) = rel"
  "buffer (data (make_vector xs cap rel)) = slots xs cap"
  by (simp_all add: make_vector_def Capacity_def)

lemma map_outcome_eq_Ok: "map_outcome f g r = Ok y \<longleftrightarrow> (\<exists>x. r = Ok x \<and> y = f x)"
  by (cases r) auto

lemma and_then_eq_Ok: "and_then r f u = Ok y \<longleftrightarrow> (\<exists>x. r = Ok x \<and> f x = Ok y)"
  by (cases r) (auto simp: and_then_def)

lemma relocate_Ok:
  assumes "relocate E f n d (v, m) = Ok (v1, m1)"
  shows "size_v v1 = size_v v"
    and "capacity m1 = capacity m"
    and "released m1 = released m"
    and "length (buffer m1) = length (buffer m)"
    and "\<And>i. i < length (buffer m) \<Longrightarrow>
           buffer m1 ! i = (if d \<le> i \<and> i < d + n then buffer (data v) ! (f + (i - d)) else buffer m ! i)"
    and "length (buffer (data v1)) = length (buffer (data v))"
    and "\<And>i. i < length (buffer (data v)) \<Longrightarrow> \<not> (f \<le> i \<and> i < f + n) \<Longrightarrow>
           buffer (data v1) ! i = buffer (data v) ! i"
proof -
  show "size_v v1 = size_v v" "capacity m1 = capacity m" "released m1 = released m"
    using assms
    by (auto simp: relocate_def set_buffer_def map_outcome_eq_Ok split: if_splits outcome.splits prod.splits)
  show "length (buffer m1) = length (buffer m)"
    using assms
    by (auto simp: relocate_def set_buffer_def map_outcome_eq_Ok split: if_splits outcome.splits prod.splits
             dest: uninit_move_length uninit_copy_length)
  show "length (buffer (data v1)) = length (buffer (data v))"
    using assms
    by (auto simp: relocate_def set_buffer_def map_outcome_eq_Ok split: if_splits outcome.splits prod.splits
             dest: uninit_move_length)
  show "buffer m1 ! i = (if d \<le> i \<and> i < d + n then buffer (data v) ! (f + (i - d)) else buffer m ! i)"
    if "i < length (buffer m)" for i
    using assms that
    by (auto simp: relocate_def set_buffer_def map_outcome_eq_Ok uninit_move_dst_nth uninit_copy_nth
             split: if_splits outcome.splits prod.splits)
  show "buffer (data v1) ! i = buffer (data v) ! i"
    if "i < length (buffer (data v))" "\<not> (f \<le> i \<and> i < f + n)" for i
    using assms that
    by (auto simp: relocate_def set_buffer_def map_outcome_eq_Ok uninit_move_src_nth
             split: if_splits outcome.splits prod.splits)
qed

subsection \<open>Reserve and Resize on return\<close>

lemma RawMemory_sized_Inr:
  "RawMemory_sized E n = Inr m \<Longrightarrow> m = \<lparr>buffer = replicate n None, capacity = n, released = []\<rparr>"
  by (auto simp: RawMemory_sized_def Allocate_def split: if_splits sum.splits)

lemma adopt_Ok: "adopt (v1, m1) = Ok v' \<Longrightarrow> v' = \<lparr>data = m1, size_v = size_v v1\<rparr>"
  by (auto simp: adopt_def RawMemory_Swap_def split: option.splits)

lemma wrap_id: "n \<le> size_max \<Longrightarrow> wrap n = n"
  by (simp add: wrap_def)

lemma wrap_double: "in_address_space v \<Longrightarrow> n \<le> Capacity v \<Longrightarrow> wrap (n * 2) = n * 2"
  by (rule wrap_id) (simp add: in_address_space_def ptrdiff_max_def size_max_def)

lemma wrap_succ: "in_address_space v \<Longrightarrow> n \<le> Capacity v \<Longrightarrow> wrap (n + 1) = n + 1"
  by (rule wrap_id) (simp add: in_address_space_def ptrdiff_max_def size_max_def)

lemma Reserve_Ok:
  assumes inv: "struct_inv v" and gt: "Capacity v < n" and ok: "Reserve E v n = Ok v'"
  shows "v' = make_vector (elements v) n []"
proof -
  from ok gt obtain m where m: "RawMemory_sized E n = Inr m"
    and run: "and_then (FillNewData E (v, m) (size_v v)) adopt fst = Ok v'"
    by (auto simp: Reserve_def split: sum.splits)
  from run obtain v1 m1 where fill: "relocate E 0 (size_v v) 0 (v, m) = Ok (v1, m1)"
    and ad: "adopt (v1, m1) = Ok v'"
    by (auto simp: and_then_eq_Ok FillNewData_def begin_v_def)
  note m_eq = RawMemory_sized_Inr[OF m]
  have sz: "size_v v \<le> n" "length (elements v) \<le> n"
    using inv gt by (simp_all add: struct_inv_def length_elements)
  have len: "length (buffer m1) = n"
    using relocate_Ok(4)[OF fill] m_eq by simp
  have "buffer m1 = slots (elements v) n"
  proof (rule nth_equalityI)
    show "length (buffer m1) = length (slots (elements v) n)" using len sz by simp
  next
    fix i assume "i < length (buffer m1)"
    then have i: "i < n" using len by simp
    then have "buffer m1 ! i = (if i < size_v v then buffer (data v) ! i else None)"
      using relocate_Ok(5)[OF fill, of i] m_eq by simp
    then show "buffer m1 ! i = slots (elements v) n ! i"
      using i sz inv by (simp add: slots_nth length_elements elements_nth)
  qed
  moreover have "capacity m1 = n" "released m1 = []"
    using relocate_Ok(2,3)[OF fill] m_eq by simp_all
  moreover have "size_v v1 = length (elements v)"
    using relocate_Ok(1)[OF fill] inv by (simp add: length_elements)
  ultimately show ?thesis
    using adopt_Ok[OF ad] by (simp add: make_vector_def)
qed

lemma Reserve_noop: "n \<le> Capacity v \<Longrightarrow> Reserve E v n = Ok v"
  by (simp add: Reserve_def)

lemma destroy_n_slots:
  assumes "destroy_n (slots xs cap) k (length xs - k) = Some b" "length xs \<le> cap" "k \<le> length xs"
  shows "b = slots (take k xs) cap"
proof (rule nth_equalityI)
  show "length b = length (slots (take k xs) cap)"
    using assms destroy_n_length[OF assms(1)] by simp
next
  fix i assume "i < length b"
  then have i: "i < cap" using assms destroy_n_length[OF assms(1)] by simp
  then show "b ! i = slots (take k xs) cap ! i"
    using destroy_n_nth[OF assms(1), of i] assms(2,3) by (auto simp: slots_nth)
qed

lemma value_construct_slots:
  assumes "uninitialized_value_construct_n E (slots xs cap) (length xs) k = Ok b"
    "length xs + k \<le> cap"
  shows "b = slots (xs @ replicate k (value_init E)) cap"
proof (rule nth_equalityI)
  show "length b = length (slots (xs @ replicate k (value_init E)) cap)"
    using assms value_construct_length[OF assms(1)] by simp
next
  fix i assume "i < length b"
  then have i: "i < cap" using assms value_construct_length[OF assms(1)] by simp
  then show "b ! i = slots (xs @ replicate k (value_init E)) cap ! i"
    using value_construct_nth[OF assms(1), of i] assms(2) by (auto simp: slots_nth nth_append)
qed

lemma Resize_Ok:
  assumes inv: "struct_inv v" and sp: "in_address_space v" and ok: "Resize E v n = Ok v'"
  shows "v' = make_vector (take n (elements v) @ replicate (n - size_v v) (value_init E))
                (if n \<le> Capacity v then Capacity v else max (2 * Capacity v) n)
                (if n \<le> Capacity v then released (data v) else [])"
proof (cases "n < size_v v")
  case True
  note v_eq = struct_inv_make_vector[OF inv]
  have le: "length (elements v) \<le> Capacity v" "n \<le> Capacity v" "n \<le> length (elements v)"
    using inv True by (simp_all add: length_elements struct_inv_def)
  from ok True obtain b where
    b: "destroy_n (buffer (data v)) n (size_v v - n) = Some b"
    and v': "v' = (set_buffer v b)\<lparr>size_v := n\<rparr>"
    by (auto simp: Resize_def begin_v_def split: option.splits)
  from b have "destroy_n (slots (elements v) (Capacity v)) n (length (elements v) - n) = Some b"
    using inv by (simp add: length_elements flip: struct_inv_buffer)
  from destroy_n_slots[OF this le(1,3)] have "b = slots (take n (elements v)) (Capacity v)" .
  with v' le True show ?thesis
    by (simp add: make_vector_def set_buffer_def Capacity_def min_def)
next
  case False
  let ?xs = "elements v"
  let ?cap = "if n \<le> Capacity v then Capacity v else max (2 * Capacity v) n"
  let ?rel = "if n \<le> Capacity v then released (data v) else []"
  from ok False obtain v1 b where
    v1: "(if Capacity v < n then Reserve E v (max (wrap (Capacity v * 2)) n) else Ok v) = Ok v1"
    and b: "uninitialized_value_construct_n E (buffer (data v1)) (end_v v1) (n - size_v v1) = Ok b"
    and v': "v' = (set_buffer v1 b)\<lparr>size_v := n\<rparr>"
    by (auto simp: Resize_def and_then_eq_Ok)
  have v1_eq: "v1 = make_vector ?xs ?cap ?rel"
  proof (cases "Capacity v < n")
    case True
    have w: "wrap (Capacity v * 2) = Capacity v * 2" using sp by (simp add: wrap_double)
    from True v1 have "Reserve E v (max (Capacity v * 2) n) = Ok v1" by (simp add: w)
    from Reserve_Ok[OF inv _ this] True show ?thesis by (simp add: mult.commute)
  next
    case False
    with v1 struct_inv_make_vector[OF inv] show ?thesis by simp
  qed
  have len: "length ?xs = size_v v" using inv by (simp add: length_elements)
  have cap: "length ?xs + (n - size_v v) \<le> ?cap"
    using False len inv by (auto simp: struct_inv_def)
  from b have "uninitialized_value_construct_n E (slots ?xs ?cap) (length ?xs) (n - size_v v) = Ok b"
    by (simp add: v1_eq end_v_def len)
  from value_construct_slots[OF this cap] have "b = slots (?xs @ replicate (n - size_v v) (value_init E)) ?cap" .
  with v' v1_eq False len show ?thesis
    by (simp add: make_vector_def set_buffer_def)
qed

subsection \<open>Insertion and removal on return\<close>

lemma nth_insert:
  "pos \<le> length xs \<Longrightarrow> i \<le> length xs \<Longrightarrow>
   (take pos xs @ x # drop pos xs) ! i =
     (if i < pos then xs ! i else if i = pos then x else xs ! (i - 1))"
  by (auto simp: nth_append nth_Cons' min_def)

lemma nth_remove:
  "pos < length xs \<Longrightarrow> i < length xs - 1 \<Longrightarrow>
   (take pos xs @ drop (Suc pos) xs) ! i = (if i < pos then xs ! i else xs ! Suc i)"
  by (auto simp: nth_append min_def)

lemma construct_at_Ok:
  "construct_at buf p args = Ok b \<longleftrightarrow> (\<exists>x. args = Constructs x \<and> raw_at buf p \<and> b = buf[p := Some x])"
  by (auto simp: construct_at_def split: init.splits)

lemma move_assign_at_Ok:
  "move_assign_at E buf p x = Ok b \<Longrightarrow> live_at buf p \<and> b = buf[p := Some x]"
  by (auto simp: move_assign_at_def split: if_splits)

lemma uninit_move_within_one_Ok:
  "uninitialized_move_n_within E buf f 1 d = Ok b \<Longrightarrow>
   live_at buf f \<and> raw_at buf d \<and> b = buf[f := Some (moved_from E (the (buf ! f))), d := buf ! f]"
  by (auto split: if_splits outcome.splits)

lemma InsertWithRelocation_Ok:
  assumes inv: "struct_inv v" and spare: "size_v v < Capacity v" and pos: "pos \<le> size_v v"
    and ok: "InsertWithRelocation E v pos pos args = Ok v1"
  shows "\<exists>x. args = Constructs x \<and>
           v1 = \<lparr>data = \<lparr>buffer = slots (take pos (elements v) @ x # drop pos (elements v)) (Capacity v),
                         capacity = Capacity v, released = released (data v)\<rparr>,
                 size_v = size_v v\<rparr>"
proof -
  let ?xs = "elements v" and ?buf = "buffer (data v)" and ?n = "size_v v" and ?cap = "Capacity v"
  have len: "length ?xs = ?n" "length ?buf = ?cap"
    using inv by (simp_all add: length_elements struct_inv_def)
  have live: "\<And>i. i < ?n \<Longrightarrow> ?buf ! i = Some (?xs ! i)"
    using inv by (simp add: elements_nth)
  have raw: "\<And>i. ?n \<le> i \<Longrightarrow> i < ?cap \<Longrightarrow> ?buf ! i = None"
    using struct_inv_raw[OF inv] by (simp add: raw_at_def)
  have shape: "v1 = \<lparr>data = \<lparr>buffer = b, capacity = ?cap, released = released (data v)\<rparr>, size_v = ?n\<rparr>"
    if "v1 = set_buffer v b" for b
    using that by (simp add: set_buffer_def Capacity_def)
  show ?thesis
  proof (cases "pos = ?n")
    case True
    from ok True obtain x where x: "args = Constructs x"
      and v1: "v1 = set_buffer v (?buf[?n := Some x])"
      by (auto simp: InsertWithRelocation_def end_v_def and_then_eq_Ok construct_at_Ok)
    have "?buf[?n := Some x] = slots (take pos ?xs @ x # drop pos ?xs) ?cap"
    proof (rule nth_equalityI)
      show "length (?buf[?n := Some x]) = length (slots (take pos ?xs @ x # drop pos ?xs) ?cap)"
        using len spare True by simp
    next
      fix i assume "i < length (?buf[?n := Some x])"
      then have i: "i < ?cap" using len by simp
      show "?buf[?n := Some x] ! i = slots (take pos ?xs @ x # drop pos ?xs) ?cap ! i"
        using i len spare True live raw
        by (cases "i < ?n") (auto simp: slots_nth nth_list_update nth_append)
    qed
    with x shape[OF v1] show ?thesis by simp
  next
    case False
    then have lt: "pos < ?n" using pos by simp
    from ok False obtain t b1 b2 b3 where t: "args = Constructs t"
      and b1: "uninitialized_move_n_within E ?buf (?n - 1) 1 ?n = Ok b1"
      and b2: "move_backward E b1 pos (?n - 1 - pos) ?n = Ok b2"
      and b3: "move_assign_at E b2 pos t = Ok b3"
      and v1: "v1 = set_buffer v b3"
      by (auto simp: InsertWithRelocation_def end_v_def and_then_eq_Ok RawMemory_plus_def
            RawMemory_index_def split: init.splits option.splits if_splits)
    from uninit_move_within_one_Ok[OF b1]
    have b1_eq: "b1 = ?buf[?n - 1 := Some (moved_from E (the (?buf ! (?n - 1)))), ?n := ?buf ! (?n - 1)]"
      by simp
    have l1: "length b1 = ?cap" using b1_eq len by simp
    have n_eq: "?n = Suc (pos + (?n - 1 - pos))" using lt by simp
    from b2 have b2': "move_backward E b1 pos (?n - 1 - pos) (Suc (pos + (?n - 1 - pos))) = Ok b2"
      using n_eq by simp
    have l2: "length b2 = ?cap" using move_backward_length[OF b2] l1 by simp
    have b3_eq: "b3 = b2[pos := Some t]" using move_assign_at_Ok[OF b3] by simp
    have "b3 = slots (take pos ?xs @ t # drop pos ?xs) ?cap"
    proof (rule nth_equalityI)
      show "length b3 = length (slots (take pos ?xs @ t # drop pos ?xs) ?cap)"
        using b3_eq l2 len spare lt by simp
    next
      fix i assume "i < length b3"
      then have i: "i < ?cap" using b3_eq l2 by simp
      have b2_nth: "b2 ! i = (if pos < i \<and> i \<le> ?n - 1 then b1 ! (i - 1)
              else if i = pos \<and> 0 < ?n - 1 - pos then Some (moved_from E (the (b1 ! i)))
              else b1 ! i)"
        using move_backward_nth[OF b2', of i] i l1 lt by simp
      have rhs: "slots (take pos ?xs @ t # drop pos ?xs) ?cap ! i =
          (if i < pos then Some (?xs ! i) else if i = pos then Some t
           else if i \<le> ?n then Some (?xs ! (i - 1)) else None)"
        using i len spare lt by (simp add: slots_nth nth_insert)
      consider "i < pos" | "i = pos" | "pos < i" "i \<le> ?n - 1" | "i = ?n" | "?n < i"
        using lt by linarith
      then show "b3 ! i = slots (take pos ?xs @ t # drop pos ?xs) ?cap ! i"
      proof cases
        case 1
        then show ?thesis using rhs b3_eq b2_nth b1_eq i l2 len lt live[of i]
          by (simp add: nth_list_update)
      next
        case 2
        then show ?thesis using rhs b3_eq i l2 by simp
      next
        case 3
        then show ?thesis using rhs b3_eq b2_nth b1_eq i l2 len lt live[of "i - 1"]
          by (simp add: nth_list_update)
      next
        case 4
        have n0: "\<not> ?n \<le> ?n - Suc 0" "?n - Suc 0 < ?n" using lt by arith+
        from 4 show ?thesis using rhs b3_eq b2_nth b1_eq i l2 len lt live[of "?n - 1"] n0
          by (simp add: nth_list_update)
      next
        case 5
        then show ?thesis using rhs b3_eq b2_nth b1_eq i l2 len lt raw[of i]
          by (simp add: nth_list_update)
      qed
    qed
    with t shape[OF v1] show ?thesis by simp
  qed
qed

lemma InsertWithoutRelocation_Ok:
  assumes inv: "struct_inv v" and full: "size_v v = Capacity v" and sp: "in_address_space v"
    and pos: "pos \<le> size_v v"
    and ok: "InsertWithoutRelocation E v pos pos args = Ok v'"
  shows "\<exists>x. args = Constructs x \<and>
           v' = \<lparr>data = \<lparr>buffer = slots (take pos (elements v) @ x # drop pos (elements v))
                                    (if size_v v = 0 then 1 else 2 * size_v v),
                         capacity = (if size_v v = 0 then 1 else 2 * size_v v), released = []\<rparr>,
                 size_v = size_v v\<rparr>"
proof -
  let ?xs = "elements v" and ?buf = "buffer (data v)" and ?n = "size_v v"
  let ?N = "if ?n = 0 then 1 else 2 * ?n"
  have len: "length ?xs = ?n" "length ?buf = ?n"
    using inv full length_elements[OF inv] by (simp_all add: struct_inv_def)
  have live: "\<And>i. i < ?n \<Longrightarrow> ?buf ! i = Some (?xs ! i)"
    using inv by (simp add: elements_nth)
  have w: "(if ?n = 0 then 1 else wrap (?n * 2)) = ?N"
    using wrap_double[OF sp, of ?n] full by (simp add: mult.commute)
  have N: "?n < ?N" by simp
  from ok obtain m where m: "RawMemory_sized E ?N = Inr m"
    and run: "and_then (construct_at (buffer m) (0 + pos) args)
            (\<lambda>b. and_then (FillNewData E (v, m\<lparr>buffer := b\<rparr>) pos)
                    (\<lambda>st. and_then (relocate E (begin_v v + pos) (?n - pos) (0 + pos + 1) st) adopt fst)
                    fst)
            (\<lambda>b. v) = Ok v'"
    unfolding InsertWithoutRelocation_def w by (auto split: sum.splits)
  note m_eq = RawMemory_sized_Inr[OF m]
  from run obtain x v1 m1 v2 m2 where x: "args = Constructs x"
    and r1: "relocate E 0 pos 0 (v, m\<lparr>buffer := (buffer m)[pos := Some x]\<rparr>) = Ok (v1, m1)"
    and r2: "relocate E pos (?n - pos) (Suc pos) (v1, m1) = Ok (v2, m2)"
    and ad: "adopt (v2, m2) = Ok v'"
    by (auto simp: and_then_eq_Ok construct_at_Ok FillNewData_def begin_v_def)
  have l1: "length (buffer m1) = ?N" "length (buffer (data v1)) = ?n"
    using relocate_Ok(4,6)[OF r1] m_eq len by simp_all
  have l2: "length (buffer m2) = ?N"
    using relocate_Ok(4)[OF r2] l1 by simp
  have m1_nth: "buffer m1 ! i = (if i < pos then ?buf ! i else if i = pos then Some x else None)"
    if "i < ?N" for i
    using relocate_Ok(5)[OF r1, of i] that m_eq by (simp add: nth_list_update)
  have v1_nth: "buffer (data v1) ! i = ?buf ! i" if "pos \<le> i" "i < ?n" for i
    using relocate_Ok(7)[OF r1, of i] that len by simp
  have m2_nth: "buffer m2 ! i =
      (if Suc pos \<le> i \<and> i < Suc pos + (?n - pos) then buffer (data v1) ! (pos + (i - Suc pos))
       else buffer m1 ! i)" if "i < ?N" for i
    using relocate_Ok(5)[OF r2, of i] that l1 by simp
  have "buffer m2 = slots (take pos ?xs @ x # drop pos ?xs) ?N"
  proof (rule nth_equalityI)
    show "length (buffer m2) = length (slots (take pos ?xs @ x # drop pos ?xs) ?N)"
      using l2 len pos by simp
  next
    fix i assume "i < length (buffer m2)"
    then have i: "i < ?N" using l2 by simp
    have rhs: "slots (take pos ?xs @ x # drop pos ?xs) ?N ! i =
          (if i < pos then Some (?xs ! i) else if i = pos then Some x
           else if i \<le> ?n then Some (?xs ! (i - 1)) else None)"
      using i len pos by (simp add: slots_nth nth_insert)
    consider "i < pos" | "i = pos" | "pos < i" "i \<le> ?n" | "?n < i"
      by linarith
    then show "buffer m2 ! i = slots (take pos ?xs @ x # drop pos ?xs) ?N ! i"
    proof cases
      case 1
      then show ?thesis using rhs m2_nth[OF i] m1_nth[OF i] live[of i] pos by simp
    next
      case 2
      then show ?thesis using rhs m2_nth[OF i] m1_nth[OF i] by simp
    next
      case 3
      then have a: "pos + (i - Suc pos) = i - 1" "i - 1 < ?n" "pos \<le> i - 1" by arith+
      from 3 have "buffer m2 ! i = buffer (data v1) ! (i - 1)"
        using m2_nth[OF i] pos a by simp
      also have "\<dots> = ?buf ! (i - 1)" using v1_nth[of "i - 1"] a by simp
      also have "\<dots> = Some (?xs ! (i - 1))" using live[of "i - 1"] a by simp
      finally show ?thesis using rhs 3 by simp
    next
      case 4
      then show ?thesis using rhs m2_nth[OF i] m1_nth[OF i] pos by simp
    qed
  qed
  moreover have "capacity m2 = ?N" "released m2 = []"
    using relocate_Ok(2,3)[OF r2] relocate_Ok(2,3)[OF r1] m_eq by simp_all
  moreover have "size_v v2 = ?n"
    using relocate_Ok(1)[OF r2] relocate_Ok(1)[OF r1] by simp
  ultimately show ?thesis
    using adopt_Ok[OF ad] x by simp
qed

lemma Emplace_Ok:
  assumes inv: "struct_inv v" and sp: "in_address_space v" and pos: "pos \<le> size_v v"
    and ok: "Emplace E v pos args = Ok (v', p)"
  shows "\<exists>x. args = Constructs x \<and> p = pos \<and>
           v' = make_vector (take pos (elements v) @ x # drop pos (elements v))
                  (grown_capacity v)
                  (if size_v v = Capacity v then [] else released (data v))"
proof -
  let ?xs = "elements v"
  have len: "length ?xs = size_v v" using inv by (simp add: length_elements)
  have le: "size_v v \<le> Capacity v" using inv by (simp add: struct_inv_def)
  have w: "wrap (size_v v + 1) = size_v v + 1"
    using wrap_succ[OF sp le] .
  from ok pos obtain v1 where
    v1: "(if size_v v = Capacity v then InsertWithoutRelocation E v pos pos args
          else InsertWithRelocation E v pos pos args) = Ok v1"
    and v': "v' = v1\<lparr>size_v := wrap (size_v v1 + 1)\<rparr>" and p: "p = pos"
    by (auto simp: Emplace_def begin_v_def end_v_def Let_def and_then_eq_Ok split: if_splits)
  show ?thesis
  proof (cases "size_v v = Capacity v")
    case True
    with v1 have "InsertWithoutRelocation E v pos pos args = Ok v1" by simp
    from InsertWithoutRelocation_Ok[OF inv True sp pos this] obtain x where
      "args = Constructs x" and
      "v1 = \<lparr>data = \<lparr>buffer = slots (take pos ?xs @ x # drop pos ?xs)
                                    (if size_v v = 0 then 1 else 2 * size_v v),
                         capacity = (if size_v v = 0 then 1 else 2 * size_v v), released = []\<rparr>,
                 size_v = size_v v\<rparr>" by blast
    with v' p True w len pos show ?thesis
      by (simp add: make_vector_def grown_capacity_def min_def)
  next
    case False
    with v1 have r: "InsertWithRelocation E v pos pos args = Ok v1" by simp
    from False le have "size_v v < Capacity v" by simp
    from InsertWithRelocation_Ok[OF inv this pos r] obtain x where
      "args = Constructs x" and
      "v1 = \<lparr>data = \<lparr>buffer = slots (take pos ?xs @ x # drop pos ?xs) (Capacity v),
                         capacity = Capacity v, released = released (data v)\<rparr>,
                 size_v = size_v v\<rparr>" by blast
    with v' p False w len pos show ?thesis
      by (simp add: make_vector_def grown_capacity_def min_def)
  qed
qed

lemma PopBack_Ok:
  assumes inv: "struct_inv v" and ok: "PopBack v = Ok v'"
  shows "size_v v \<noteq> 0 \<and> v' = make_vector (butlast (elements v)) (Capacity v) (released (data v))"
proof -
  let ?xs = "elements v" and ?buf = "buffer (data v)" and ?n = "size_v v" and ?cap = "Capacity v"
  have len: "length ?xs = ?n" "length ?buf = ?cap" "?n \<le> ?cap"
    using inv by (simp_all add: length_elements struct_inv_def)
  from ok have n: "?n \<noteq> 0" and v': "v' = (set_buffer v (?buf[?n - 1 := None]))\<lparr>size_v := ?n - 1\<rparr>"
    by (auto simp: PopBack_def destroy_at_def end_v_def split: if_splits option.splits)
  have "?buf[?n - 1 := None] = slots (butlast ?xs) ?cap"
  proof (rule nth_equalityI)
    show "length (?buf[?n - 1 := None]) = length (slots (butlast ?xs) ?cap)"
      using len by simp
  next
    fix i assume "i < length (?buf[?n - 1 := None])"
    then have i: "i < ?cap" using len by simp
    show "?buf[?n - 1 := None] ! i = slots (butlast ?xs) ?cap ! i"
    proof (cases "i < ?n - 1")
      case True
      then show ?thesis using i len elements_nth[OF inv, of i]
        by (simp add: slots_nth nth_butlast)
    next
      case False
      then show ?thesis using i len n struct_inv_raw[OF inv, of i]
        by (cases "i = ?n - 1") (auto simp: slots_nth raw_at_def)
    qed
  qed
  with v' n len show ?thesis
    by (simp add: make_vector_def set_buffer_def Capacity_def)
qed

lemma Erase_Ok:
  assumes inv: "struct_inv v" and ok: "Erase E v pos = Ok (v', p)"
  shows "pos < size_v v \<and> p = pos \<and>
         v' = make_vector (take pos (elements v) @ drop (Suc pos) (elements v)) (Capacity v)
                (released (data v))"
proof -
  let ?xs = "elements v" and ?buf = "buffer (data v)" and ?n = "size_v v" and ?cap = "Capacity v"
  have len: "length ?xs = ?n" "length ?buf = ?cap" "?n \<le> ?cap"
    using inv by (simp_all add: length_elements struct_inv_def)
  from ok have lt: "pos < ?n"
    by (auto simp: Erase_def begin_v_def end_v_def split: if_splits)
  from ok lt obtain b v1 where b: "move_range E ?buf (Suc pos) (?n - Suc pos) pos = Ok b"
    and pb: "PopBack (set_buffer v b) = Ok v1" and v': "v' = v1" and p: "p = pos"
    by (auto simp: Erase_def begin_v_def end_v_def Let_def and_then_eq_Ok)
  have lb: "length b = ?cap" using move_range_length[OF b] len by simp
  have b_nth: "b ! i = (if pos \<le> i \<and> i < pos + (?n - Suc pos) then ?buf ! Suc i
            else if i = pos + (?n - Suc pos) \<and> 0 < ?n - Suc pos
              then Some (moved_from E (the (?buf ! i)))
            else ?buf ! i)" if "i < ?cap" for i
    using move_range_nth[OF b, of i] that len by simp
  from pb have v1: "v1 = (set_buffer v (b[?n - 1 := None]))\<lparr>size_v := ?n - 1\<rparr>"
    by (auto simp: PopBack_def destroy_at_def end_v_def set_buffer_def
             split: if_splits option.splits)
  have "b[?n - 1 := None] = slots (take pos ?xs @ drop (Suc pos) ?xs) ?cap"
  proof (rule nth_equalityI)
    show "length (b[?n - 1 := None]) = length (slots (take pos ?xs @ drop (Suc pos) ?xs) ?cap)"
      using lb len lt by simp
  next
    fix i assume "i < length (b[?n - 1 := None])"
    then have i: "i < ?cap" using lb by simp
    have rhs: "slots (take pos ?xs @ drop (Suc pos) ?xs) ?cap ! i =
        (if i < pos then Some (?xs ! i) else if i < ?n - 1 then Some (?xs ! Suc i) else None)"
      using i len lt by (auto simp: slots_nth nth_remove min_def)
    consider "i < pos" | "pos \<le> i" "i < ?n - 1" | "i = ?n - 1" | "?n \<le> i"
      using lt by linarith
    then show "b[?n - 1 := None] ! i = slots (take pos ?xs @ drop (Suc pos) ?xs) ?cap ! i"
    proof cases
      case 1
      then have "i \<noteq> ?n - Suc 0" "i < ?n" "i \<noteq> pos + (?n - Suc pos)" using lt by arith+
      then show ?thesis using 1 rhs b_nth[OF i] i lb lt elements_nth[OF inv, of i]
        by (simp add: nth_list_update)
    next
      case 2
      then have "Suc i < ?n" "i < pos + (?n - Suc pos)" "i \<noteq> ?n - Suc 0" by arith+
      then show ?thesis using 2 rhs b_nth[OF i] i lb lt elements_nth[OF inv, of "Suc i"]
        by (simp add: nth_list_update)
    next
      case 3
      then show ?thesis using rhs i lb lt by simp
    next
      case 4
      then have "\<not> i < pos + (?n - Suc pos)" "i \<noteq> pos + (?n - Suc pos)" using lt by arith+
      then show ?thesis using 4 rhs b_nth[OF i] i lb lt struct_inv_raw[OF inv, of i]
        by (simp add: nth_list_update raw_at_def)
    qed
  qed
  with v1 v' p lt len show ?thesis
    by (simp add: make_vector_def set_buffer_def Capacity_def min_def)
qed

subsection \<open>Calls that cannot throw return\<close>

lemma live_at_update: "live_at buf i \<Longrightarrow> live_at (buf[j := Some x]) i"
  by (cases "i = j") (auto simp: live_at_def)

lemma raw_at_update_other: "raw_at buf i \<Longrightarrow> i \<noteq> j \<Longrightarrow> raw_at (buf[j := y]) i"
  by (simp add: raw_at_def)

lemma value_construct_total:
  "\<not> value_init_throws E \<Longrightarrow> (\<And>i. f \<le> i \<Longrightarrow> i < f + n \<Longrightarrow> raw_at buf i) \<Longrightarrow>
   \<exists>b. uninitialized_value_construct_n E buf f n = Ok b"
proof (induction n arbitrary: buf f)
  case 0
  then show ?case by simp
next
  case (Suc n)
  have "raw_at buf f" using Suc.prems(2)[of f] by simp
  moreover have "\<exists>b. uninitialized_value_construct_n E (buf[f := Some (value_init E)]) (Suc f) n = Ok b"
  proof (rule Suc.IH[OF Suc.prems(1)])
    fix i assume "Suc f \<le> i" "i < Suc f + n"
    then show "raw_at (buf[f := Some (value_init E)]) i"
      using Suc.prems(2)[of i] by (simp add: raw_at_update_other)
  qed
  ultimately show ?case using Suc.prems(1) by auto
qed

lemma uninit_copy_total:
  "(\<And>x. \<not> copy_ctor_throws E x) \<Longrightarrow> (\<And>i. f \<le> i \<Longrightarrow> i < f + n \<Longrightarrow> live_at src i) \<Longrightarrow>
   (\<And>i. d \<le> i \<Longrightarrow> i < d + n \<Longrightarrow> raw_at dst i) \<Longrightarrow>
   \<exists>b. uninitialized_copy_n E src f n dst d = Ok b"
proof (induction n arbitrary: dst f d)
  case 0
  then show ?case by simp
next
  case (Suc n)
  have "live_at src f" "raw_at dst d" using Suc.prems(2)[of f] Suc.prems(3)[of d] by simp_all
  moreover have "\<exists>b. uninitialized_copy_n E src (Suc f) n (dst[d := src ! f]) (Suc d) = Ok b"
  proof (rule Suc.IH[OF Suc.prems(1)])
    fix i assume "Suc f \<le> i" "i < Suc f + n"
    then show "live_at src i" using Suc.prems(2)[of i] by simp
  next
    fix i assume "Suc d \<le> i" "i < Suc d + n"
    then show "raw_at (dst[d := src ! f]) i"
      using Suc.prems(3)[of i] by (simp add: raw_at_update_other)
  qed
  ultimately show ?case using Suc.prems(1) by auto
qed

lemma uninit_move_total:
  "(\<And>x. \<not> move_ctor_throws E x) \<Longrightarrow> (\<And>i. f \<le> i \<Longrightarrow> i < f + n \<Longrightarrow> live_at src i) \<Longrightarrow>
   (\<And>i. d \<le> i \<Longrightarrow> i < d + n \<Longrightarrow> raw_at dst i) \<Longrightarrow>
   \<exists>r. uninitialized_move_n E src f n dst d = Ok r"
proof (induction n arbitrary: src dst f d)
  case 0
  then show ?case by simp
next
  case (Suc n)
  let ?src = "src[f := Some (moved_from E (the (src ! f)))]"
  have "live_at src f" "raw_at dst d" using Suc.prems(2)[of f] Suc.prems(3)[of d] by simp_all
  moreover have "\<exists>r. uninitialized_move_n E ?src (Suc f) n (dst[d := src ! f]) (Suc d) = Ok r"
  proof (rule Suc.IH[OF Suc.prems(1)])
    fix i assume "Suc f \<le> i" "i < Suc f + n"
    then show "live_at ?src i" using Suc.prems(2)[of i] by (simp add: live_at_update)
  next
    fix i assume "Suc d \<le> i" "i < Suc d + n"
    then show "raw_at (dst[d := src ! f]) i"
      using Suc.prems(3)[of i] by (simp add: raw_at_update_other)
  qed
  ultimately show ?case using Suc.prems(1) by auto
qed

lemma live_at_update2:
  "live_at buf a \<Longrightarrow> live_at buf i \<Longrightarrow> live_at (buf[j := Some x, k := buf ! a]) i"
  by (cases "i = k"; cases "i = j") (auto simp: live_at_def)

lemma move_range_total:
  "(\<And>d s. \<not> move_assign_throws E d s) \<Longrightarrow> (\<And>i. d \<le> i \<Longrightarrow> i \<le> d + n \<Longrightarrow> live_at buf i) \<Longrightarrow>
   \<exists>b. move_range E buf (Suc d) n d = Ok b"
proof (induction n arbitrary: buf d)
  case 0
  then show ?case by simp
next
  case (Suc n)
  let ?buf = "buf[Suc d := Some (moved_from E (the (buf ! Suc d))), d := buf ! Suc d]"
  have live: "live_at buf (Suc d)" "live_at buf d"
    using Suc.prems(2)[of "Suc d"] Suc.prems(2)[of d] by simp_all
  moreover have "\<exists>b. move_range E ?buf (Suc (Suc d)) n (Suc d) = Ok b"
  proof (rule Suc.IH[OF Suc.prems(1)])
    fix i assume "Suc d \<le> i" "i \<le> Suc d + n"
    then have "live_at buf i" using Suc.prems(2)[of i] by simp
    with live show "live_at ?buf i" by (simp add: live_at_update2)
  qed
  ultimately show ?case using Suc.prems(1) by auto
qed

lemma move_backward_total:
  "(\<And>d s. \<not> move_assign_throws E d s) \<Longrightarrow> (\<And>i. f \<le> i \<Longrightarrow> i \<le> f + n \<Longrightarrow> live_at buf i) \<Longrightarrow>
   \<exists>b. move_backward E buf f n (Suc (f + n)) = Ok b"
proof (induction n arbitrary: buf)
  case 0
  then show ?case by simp
next
  case (Suc n)
  let ?buf = "buf[f + n := Some (moved_from E (the (buf ! (f + n)))), Suc (f + n) := buf ! (f + n)]"
  have live: "live_at buf (f + n)" "live_at buf (Suc (f + n))"
    using Suc.prems(2)[of "f + n"] Suc.prems(2)[of "Suc (f + n)"] by simp_all
  moreover have "\<exists>b. move_backward E ?buf f n (Suc (f + n)) = Ok b"
  proof (rule Suc.IH[OF Suc.prems(1)])
    fix i assume "f \<le> i" "i \<le> f + n"
    then have "live_at buf i" using Suc.prems(2)[of i] by simp
    with live show "live_at ?buf i" by (simp add: live_at_update2)
  qed
  ultimately show ?case using Suc.prems(1) by auto
qed

lemma relocate_total:
  assumes "never_throws E"
    and "\<And>i. f \<le> i \<Longrightarrow> i < f + n \<Longrightarrow> live_at (buffer (data v)) i"
    and "\<And>i. d \<le> i \<Longrightarrow> i < d + n \<Longrightarrow> raw_at (buffer m) i"
  shows "\<exists>r. relocate E f n d (v, m) = Ok r"
proof (cases "is_nothrow_move_constructible E \<or> \<not> is_copy_constructible E")
  case True
  from assms(1) have "\<And>x. \<not> move_ctor_throws E x" by (simp add: never_throws_def)
  from uninit_move_total[OF this assms(2,3)] obtain r where
    "uninitialized_move_n E (buffer (data v)) f n (buffer m) d = Ok r" by blast
  with True show ?thesis by (auto simp: relocate_def)
next
  case False
  from assms(1) have "\<And>x. \<not> copy_ctor_throws E x" by (simp add: never_throws_def)
  from uninit_copy_total[OF this assms(2,3)] obtain b where
    "uninitialized_copy_n E (buffer (data v)) f n (buffer m) d = Ok b" by blast
  with False show ?thesis by (auto simp: relocate_def)
qed

lemma relocate_live:
  assumes "relocate E f n d (v, m) = Ok (v1, m1)" "live_at (buffer (data v)) i"
  shows "live_at (buffer (data v1)) i"
proof (cases "is_nothrow_move_constructible E \<or> \<not> is_copy_constructible E")
  case True
  with assms(1) obtain s b where
    u: "uninitialized_move_n E (buffer (data v)) f n (buffer m) d = Ok (s, b)"
    and v1: "v1 = set_buffer v s"
    by (auto simp: relocate_def map_outcome_eq_Ok)
  from assms(2) have i: "i < length (buffer (data v))" by (simp add: live_at_def)
  from uninit_move_src_nth[OF u i] uninit_move_length[OF u] assms(2) v1 show ?thesis
    by (auto simp: live_at_def set_buffer_def)
next
  case False
  with assms show ?thesis by (auto simp: relocate_def map_outcome_eq_Ok)
qed

lemma adopt_total:
  "(\<And>i. i < size_v v1 \<Longrightarrow> live_at (buffer (data v1)) i) \<Longrightarrow> \<exists>v'. adopt (v1, m1) = Ok v'"
  using destroy_n_total[of 0 "size_v v1" "buffer (data v1)"]
  by (auto simp: adopt_def begin_v_def)

lemma raw_at_replicate: "i < n \<Longrightarrow> raw_at (replicate n None) i"
  by (simp add: raw_at_def)

lemma RawMemory_sized_total:
  "can_allocate E n \<Longrightarrow> RawMemory_sized E n = Inr \<lparr>buffer = replicate n None, capacity = n, released = []\<rparr>"
  by (simp add: RawMemory_sized_def Allocate_def)

lemma Reserve_total:
  assumes inv: "struct_inv v" and gt: "Capacity v < n" and al: "can_allocate E n"
    and nt: "never_throws E"
  shows "\<exists>v'. Reserve E v n = Ok v'"
proof -
  let ?m = "\<lparr>buffer = replicate n None, capacity = n, released = []\<rparr> :: 'a raw_memory"
  have sz: "size_v v \<le> n" using inv gt by (simp add: struct_inv_def)
  have "\<exists>r. relocate E 0 (size_v v) 0 (v, ?m) = Ok r"
  proof (rule relocate_total[OF nt])
    fix i assume "0 \<le> i" "i < 0 + size_v v"
    then show "live_at (buffer (data v)) i" using inv by (simp add: struct_inv_live)
  next
    fix i assume "0 \<le> i" "i < 0 + size_v v"
    then show "raw_at (buffer ?m) i" using sz by (simp add: raw_at_replicate)
  qed
  then obtain v1 m1 where r: "relocate E 0 (size_v v) 0 (v, ?m) = Ok (v1, m1)" by force
  have "\<exists>v'. adopt (v1, m1) = Ok v'"
  proof (rule adopt_total)
    fix i assume "i < size_v v1"
    then have "i < size_v v" using relocate_Ok(1)[OF r] by simp
    then show "live_at (buffer (data v1)) i"
      using relocate_live[OF r] inv by (simp add: struct_inv_live)
  qed
  with r gt al show ?thesis
    by (auto simp: Reserve_def RawMemory_sized_total FillNewData_def begin_v_def and_then_eq_Ok)
qed

lemma Erase_total:
  assumes inv: "struct_inv v" and lt: "pos < size_v v" and nt: "never_throws E"
  shows "\<exists>r. Erase E v pos = Ok r"
proof -
  let ?buf = "buffer (data v)" and ?n = "size_v v"
  from nt have na: "\<And>d s. \<not> move_assign_throws E d s" by (simp add: never_throws_def)
  have "\<exists>b. move_range E ?buf (Suc pos) (?n - Suc pos) pos = Ok b"
  proof (rule move_range_total[OF na])
    fix i assume "pos \<le> i" "i \<le> pos + (?n - Suc pos)"
    then have "i < ?n" using lt by arith
    then show "live_at ?buf i" using inv by (simp add: struct_inv_live)
  qed
  then obtain b where b: "move_range E ?buf (Suc pos) (?n - Suc pos) pos = Ok b" by blast
  have "?n \<le> length ?buf" using inv by (simp add: struct_inv_def)
  with lt have i: "?n - 1 < length ?buf" by arith
  have lb: "length b = length ?buf" using move_range_length[OF b] .
  have "b ! (?n - 1) \<noteq> None"
    using move_range_nth[OF b i] lt struct_inv_live[OF inv, of "Suc (?n - 1)"]
          struct_inv_live[OF inv, of "?n - 1"]
    by (auto simp: live_at_def split: if_splits)
  with i lb have "live_at b (?n - 1)" by (simp add: live_at_def)
  with b lt show ?thesis
    by (auto simp: Erase_def begin_v_def end_v_def Let_def and_then_eq_Ok PopBack_def
          destroy_at_def set_buffer_def)
qed

lemma InsertWithRelocation_total:
  assumes inv: "struct_inv v" and spare: "size_v v < Capacity v" and pos: "pos \<le> size_v v"
    and nt: "never_throws E"
  shows "\<exists>v1. InsertWithRelocation E v pos pos (Constructs x) = Ok v1"
proof (cases "pos = size_v v")
  case True
  have "raw_at (buffer (data v)) (size_v v)" using inv spare by (simp add: struct_inv_raw)
  with True show ?thesis
    by (simp add: InsertWithRelocation_def end_v_def and_then_eq_Ok construct_at_Ok)
next
  case False
  let ?buf = "buffer (data v)" and ?n = "size_v v"
  from False pos have lt: "pos < ?n" by simp
  from nt have na: "\<And>d s. \<not> move_assign_throws E d s" and nm: "\<And>x. \<not> move_ctor_throws E x"
    by (simp_all add: never_throws_def)
  have last: "live_at ?buf (?n - 1)" and free: "raw_at ?buf ?n"
    using inv spare lt by (simp_all add: struct_inv_live struct_inv_raw)
  let ?b1 = "?buf[?n - 1 := Some (moved_from E (the (?buf ! (?n - 1)))), ?n := ?buf ! (?n - 1)]"
  have b1: "uninitialized_move_n_within E ?buf (?n - 1) 1 ?n = Ok ?b1"
    using last free nm by simp
  have live1: "live_at ?b1 i" if "i < ?n" for i
    using that last inv by (simp add: live_at_update2 struct_inv_live)
  have n_eq: "?n = Suc (pos + (?n - 1 - pos))" using lt by simp
  have "\<exists>b. move_backward E ?b1 pos (?n - 1 - pos) (Suc (pos + (?n - 1 - pos))) = Ok b"
  proof (rule move_backward_total[OF na])
    fix i assume "pos \<le> i" "i \<le> pos + (?n - 1 - pos)"
    then have "i < ?n" using lt by arith
    then show "live_at ?b1 i" by (rule live1)
  qed
  then obtain b2 where b2: "move_backward E ?b1 pos (?n - 1 - pos) (Suc (pos + (?n - 1 - pos))) = Ok b2"
    by blast
  then have b2': "move_backward E ?b1 pos (?n - 1 - pos) ?n = Ok b2" using n_eq by simp
  have p1: "pos < length ?b1" using inv lt by (simp add: struct_inv_def)
  have "live_at b2 pos"
    using move_backward_nth[OF b2 p1] move_backward_length[OF b2] p1 live1[OF lt]
    by (auto simp: live_at_def)
  then have "move_assign_at E b2 pos x = Ok (b2[pos := Some x])"
    using na by (simp add: move_assign_at_def)
  with b1 b2' False lt spare show ?thesis
    by (simp add: InsertWithRelocation_def end_v_def and_then_def RawMemory_plus_def
          RawMemory_index_def Capacity_def)
qed

lemma InsertWithoutRelocation_total:
  assumes inv: "struct_inv v" and full: "size_v v = Capacity v" and sp: "in_address_space v"
    and pos: "pos \<le> size_v v" and nt: "never_throws E"
    and al: "can_allocate E (if size_v v = 0 then 1 else 2 * size_v v)"
  shows "\<exists>v'. InsertWithoutRelocation E v pos pos (Constructs x) = Ok v'"
proof -
  let ?n = "size_v v"
  let ?N = "if ?n = 0 then 1 else 2 * ?n"
  let ?m = "\<lparr>buffer = (replicate ?N None)[pos := Some x], capacity = ?N, released = []\<rparr> :: 'a raw_memory"
  have w: "(if ?n = 0 then 1 else wrap (?n * 2)) = ?N"
    using wrap_double[OF sp, of ?n] full by (simp add: mult.commute)
  have N: "?n < ?N" by simp
  have len: "length (buffer (data v)) = ?n" using inv full by (simp add: struct_inv_def)
  have "\<exists>r. relocate E 0 pos 0 (v, ?m) = Ok r"
  proof (rule relocate_total[OF nt])
    fix i assume "0 \<le> i" "i < 0 + pos"
    then show "live_at (buffer (data v)) i" using inv pos by (simp add: struct_inv_live)
  next
    fix i assume "0 \<le> i" "i < 0 + pos"
    then show "raw_at (buffer ?m) i" using pos N by (simp add: raw_at_def)
  qed
  then obtain v1 m1 where r1: "relocate E 0 pos 0 (v, ?m) = Ok (v1, m1)" by force
  have l1: "length (buffer m1) = ?N" using relocate_Ok(4)[OF r1] by simp
  have "\<exists>r. relocate E pos (?n - pos) (Suc pos) (v1, m1) = Ok r"
  proof (rule relocate_total[OF nt])
    fix i assume "pos \<le> i" "i < pos + (?n - pos)"
    then have "i < ?n" by arith
    then show "live_at (buffer (data v1)) i"
      using relocate_live[OF r1] inv by (simp add: struct_inv_live)
  next
    fix i assume i: "Suc pos \<le> i" "i < Suc pos + (?n - pos)"
    then have "i < ?N" using pos N by (auto split: if_splits)
    then show "raw_at (buffer m1) i"
      using relocate_Ok(5)[OF r1, of i] l1 i by (simp add: raw_at_def)
  qed
  then obtain v2 m2 where r2: "relocate E pos (?n - pos) (Suc pos) (v1, m1) = Ok (v2, m2)" by force
  have "\<exists>v'. adopt (v2, m2) = Ok v'"
  proof (rule adopt_total)
    fix i assume "i < size_v v2"
    then have "i < ?n" using relocate_Ok(1)[OF r2] relocate_Ok(1)[OF r1] by simp
    then show "live_at (buffer (data v2)) i"
      using relocate_live[OF r2] relocate_live[OF r1] inv by (simp add: struct_inv_live)
  qed
  then obtain v' where ad: "adopt (v2, m2) = Ok v'" by blast
  have "RawMemory_sized E ?N = Inr \<lparr>buffer = replicate ?N None, capacity = ?N, released = []\<rparr>"
    using al by (rule RawMemory_sized_total)
  moreover have "construct_at (replicate ?N None) pos (Constructs x) = Ok ((replicate ?N None)[pos := Some x])"
    using pos N by (simp add: construct_at_def raw_at_def)
  ultimately show ?thesis
    unfolding InsertWithoutRelocation_def w
    using r1 r2 ad by (simp add: and_then_def FillNewData_def begin_v_def)
qed

lemma Emplace_total:
  assumes inv: "struct_inv v" and sp: "in_address_space v" and pos: "pos \<le> size_v v"
    and nt: "never_throws E"
    and al: "size_v v = Capacity v \<Longrightarrow> can_allocate E (grown_capacity v)"
  shows "\<exists>r. Emplace E v pos (Constructs x) = Ok r"
proof (cases "size_v v = Capacity v")
  case True
  from al[OF True] True have "can_allocate E (if size_v v = 0 then 1 else 2 * size_v v)"
    by (simp add: grown_capacity_def)
  from InsertWithoutRelocation_total[OF inv True sp pos nt this, of x] True pos show ?thesis
    by (auto simp: Emplace_def begin_v_def end_v_def and_then_eq_Ok)
next
  case False
  then have "size_v v < Capacity v" using inv by (simp add: struct_inv_def)
  from InsertWithRelocation_total[OF inv this pos nt, of x] False pos show ?thesis
    by (auto simp: Emplace_def begin_v_def end_v_def and_then_eq_Ok)
qed

lemma Resize_total:
  assumes inv: "struct_inv v" and sp: "in_address_space v" and nt: "never_throws E"
    and al: "Capacity v < n \<Longrightarrow> can_allocate E (max (2 * Capacity v) n)"
  shows "\<exists>v'. Resize E v n = Ok v'"
proof (cases "n < size_v v")
  case True
  have "\<exists>b. destroy_n (buffer (data v)) n (size_v v - n) = Some b"
  proof (rule destroy_n_total)
    fix i assume "n \<le> i" "i < n + (size_v v - n)"
    then have "i < size_v v" by arith
    then show "live_at (buffer (data v)) i" using inv by (simp add: struct_inv_live)
  qed
  with True show ?thesis by (auto simp: Resize_def begin_v_def)
next
  case False
  let ?xs = "elements v"
  have len: "length ?xs = size_v v" "size_v v \<le> Capacity v"
    using inv by (simp_all add: length_elements struct_inv_def)
  have "\<exists>v1 cap rel. (if Capacity v < n then Reserve E v (max (wrap (Capacity v * 2)) n) else Ok v) = Ok v1
          \<and> v1 = make_vector ?xs cap rel \<and> n \<le> cap"
  proof (cases "Capacity v < n")
    case True
    have w: "wrap (Capacity v * 2) = Capacity v * 2" using sp by (simp add: wrap_double)
    have gt: "Capacity v < max (Capacity v * 2) n" using True by simp
    from al[OF True] have "can_allocate E (max (Capacity v * 2) n)" by (simp add: mult.commute)
    from Reserve_total[OF inv gt this nt] obtain v1 where
      v1: "Reserve E v (max (Capacity v * 2) n) = Ok v1" by blast
    from Reserve_Ok[OF inv gt v1] v1 True w show ?thesis by auto
  next
    case False
    with struct_inv_make_vector[OF inv] show ?thesis by auto
  qed
  then obtain v1 cap rel where
    v1: "(if Capacity v < n then Reserve E v (max (wrap (Capacity v * 2)) n) else Ok v) = Ok v1"
    and v1_eq: "v1 = make_vector ?xs cap rel" and cap: "n \<le> cap" by blast
  have "\<exists>b. uninitialized_value_construct_n E (slots ?xs cap) (length ?xs) (n - length ?xs) = Ok b"
  proof (rule value_construct_total)
    show "\<not> value_init_throws E" using nt by (simp add: never_throws_def)
  next
    fix i assume "length ?xs \<le> i" "i < length ?xs + (n - length ?xs)"
    then show "raw_at (slots ?xs cap) i"
      using cap len False by (simp add: raw_at_def slots_nth)
  qed
  with v1 v1_eq False len show ?thesis
    by (auto simp: Resize_def and_then_eq_Ok end_v_def)
qed

lemmas eval_defs = int_env_def handle_env_def
  Vector_default_def RawMemory_default_def
  EmplaceBack_def Emplace_def Insert_copy_def Insert_move_def Erase_def PopBack_def
  InsertWithRelocation_def InsertWithoutRelocation_def FillNewData_def relocate_def adopt_def
  and_then_def construct_at_def move_assign_at_def destroy_at_def copy_init_def move_init_def
  RawMemory_sized_def Allocate_def RawMemory_Swap_def RawMemory_plus_def RawMemory_index_def
  begin_v_def end_v_def Capacity_def Size_def set_buffer_def live_at_def raw_at_def
  rollback_def elements_def Reserve_def Resize_def copy_assign_def Vector_copy_def Swap_def
  Vector_destroy_def Vector_sized_def struct_inv_def

lemma Emplace_nothrow:
  assumes "struct_inv v" "in_address_space v" "pos \<le> size_v v" "never_throws E"
    and "size_v v = Capacity v \<Longrightarrow> can_allocate E (grown_capacity v)"
  shows "Emplace E v pos (Constructs x) =
           Ok (make_vector (take pos (elements v) @ x # drop pos (elements v)) (grown_capacity v)
                 (if size_v v = Capacity v then [] else released (data v)), pos)"
proof -
  from Emplace_total[OF assms] obtain v' p where r: "Emplace E v pos (Constructs x) = Ok (v', p)"
    by force
  from Emplace_Ok[OF assms(1-3) r] r show ?thesis by simp
qed

lemma Erase_nothrow:
  assumes "struct_inv v" "pos < size_v v" "never_throws E"
  shows "Erase E v pos =
           Ok (make_vector (take pos (elements v) @ drop (Suc pos) (elements v)) (Capacity v)
                 (released (data v)), pos)"
proof -
  from Erase_total[OF assms] obtain v' p where r: "Erase E v pos = Ok (v', p)" by force
  from Erase_Ok[OF assms(1) r] r show ?thesis by simp
qed

lemma Reserve_nothrow:
  assumes "struct_inv v" "Capacity v < n" "can_allocate E n" "never_throws E"
  shows "Reserve E v n = Ok (make_vector (elements v) n [])"
proof -
  from Reserve_total[OF assms] obtain v' where r: "Reserve E v n = Ok v'" by blast
  from Reserve_Ok[OF assms(1,2) r] r show ?thesis by simp
qed

lemma Resize_nothrow:
  assumes "struct_inv v" "in_address_space v" "never_throws E"
    and "Capacity v < n \<Longrightarrow> can_allocate E (max (2 * Capacity v) n)"
  shows "Resize E v n =
           Ok (make_vector (take n (elements v) @ replicate (n - size_v v) (value_init E))
                 (if n \<le> Capacity v then Capacity v else max (2 * Capacity v) n)
                 (if n \<le> Capacity v then released (data v) else []))"
proof -
  from Resize_total[OF assms] obtain v' where r: "Resize E v n = Ok v'" by blast
  from Resize_Ok[OF assms(1,2) r] r show ?thesis by simp
qed

lemma init_nothrow:
  "never_throws E \<Longrightarrow> copy_init E x = Constructs x"
  "never_throws E \<Longrightarrow> move_init E x = Constructs x"
  by (simp_all add: never_throws_def copy_init_def move_init_def)

lemma never_throws_int_env: "never_throws int_env"
  by (simp add: never_throws_def int_env_def)

lemma can_allocate_int_env: "n \<le> 1000 \<Longrightarrow> can_allocate int_env n"
  by (simp add: int_env_def ptrdiff_max_def)

lemma in_address_space_make_vector: "cap \<le> 1000 \<Longrightarrow> in_address_space (make_vector xs cap rel)"
  by (simp add: in_address_space_def ptrdiff_max_def)

lemma Vector_default_make_vector: "Vector_default = make_vector [] 0 []"
  by (simp add: Vector_default_def RawMemory_default_def make_vector_def slots_def)

lemmas concrete =
  make_vector_inv in_address_space_make_vector never_throws_int_env can_allocate_int_env
  grown_capacity_def Vector_default_make_vector

subsection \<open>Copy assignment\<close>

lemma copy_assign_loop_shape:
  "copy_assign_loop E d r pos n = Ok d' \<Longrightarrow>
   capacity d' = capacity d \<and> released d' = released d \<and> length (buffer d') = length (buffer d)"
proof (induction n arbitrary: d pos)
  case 0
  then show ?case by auto
next
  case (Suc n)
  let ?d = "d\<lparr>buffer := (buffer d)[pos := buffer r ! pos]\<rparr>"
  from Suc.prems have rec: "copy_assign_loop E ?d r (Suc pos) n = Ok d'"
    by (auto simp: RawMemory_index_def split: if_splits)
  from Suc.IH[OF rec] show ?case by simp
qed

lemma copy_assign_loop_nth:
  "copy_assign_loop E d r pos n = Ok d' \<Longrightarrow> i < length (buffer d) \<Longrightarrow>
   buffer d' ! i = (if pos \<le> i \<and> i < pos + n then buffer r ! i else buffer d ! i)"
proof (induction n arbitrary: d pos)
  case 0
  then show ?case by auto
next
  case (Suc n)
  let ?d = "d\<lparr>buffer := (buffer d)[pos := buffer r ! pos]\<rparr>"
  from Suc.prems have rec: "copy_assign_loop E ?d r (Suc pos) n = Ok d'"
    by (auto simp: RawMemory_index_def split: if_splits)
  from Suc.IH[OF rec] Suc.prems(2) show ?case
    by (cases "i = pos") (auto simp: nth_list_update)
qed

lemma Swap_eq: "Swap (a :: 'a vector) b = (b, a)"
  by (simp add: Swap_def RawMemory_Swap_def)

lemma Vector_copy_Ok:
  assumes inv: "struct_inv other" and ok: "Vector_copy E other = Ok v'"
  shows "v' = make_vector (elements other) (size_v other) []"
proof -
  let ?n = "size_v other"
  from ok obtain m b where m: "RawMemory_sized E ?n = Inr m"
    and b: "uninitialized_copy_n E (buffer (data other)) 0 ?n (buffer m) 0 = Ok b"
    and v': "v' = \<lparr>data = m\<lparr>buffer := b\<rparr>, size_v = ?n\<rparr>"
    by (auto simp: Vector_copy_def and_then_eq_Ok begin_v_def split: sum.splits)
  note m_eq = RawMemory_sized_Inr[OF m]
  have len: "length (elements other) = ?n" using inv by (simp add: length_elements)
  have lb: "length b = ?n" using uninit_copy_length[OF b] m_eq by simp
  have "b = slots (elements other) ?n"
  proof (rule nth_equalityI)
    show "length b = length (slots (elements other) ?n)" using lb len by simp
  next
    fix i assume "i < length b"
    then have i: "i < ?n" using lb by simp
    then show "b ! i = slots (elements other) ?n ! i"
      using uninit_copy_nth[OF b, of i] m_eq len elements_nth[OF inv i] by (simp add: slots_nth)
  qed
  with v' m_eq len show ?thesis by (simp add: make_vector_def)
qed

lemma copy_assign_Ok:
  assumes it: "struct_inv this" and ir: "struct_inv rhs" and ok: "copy_assign E this rhs = Ok v'"
  shows "v' = make_vector (elements rhs)
                (if Capacity this < size_v rhs then size_v rhs else Capacity this)
                (if Capacity this < size_v rhs then [] else released (data this))"
proof (cases "Capacity this < size_v rhs")
  case True
  with ok have c: "Vector_copy E rhs = Ok v'"
    by (auto simp: copy_assign_def and_then_eq_Ok Swap_eq split: if_splits)
  from Vector_copy_Ok[OF ir c] True show ?thesis by simp
next
  case False
  let ?n = "size_v this" and ?k = "size_v rhs" and ?cap = "Capacity this"
  let ?xs = "elements this" and ?ys = "elements rhs"
  have len: "length ?xs = ?n" "length ?ys = ?k" "?n \<le> ?cap" "?k \<le> ?cap"
    "length (buffer (data this)) = ?cap" "?k \<le> Capacity rhs"
    using it ir False by (simp_all add: length_elements struct_inv_def)
  from ok False obtain d where
    d: "copy_assign_loop E (data this) (data rhs) 0 (min ?n ?k) = Ok d"
    and rest: "(let pos = min ?n ?k; this1 = this\<lparr>data := d\<rparr> in
                if ?n > ?k then
                  (case RawMemory_index d ?k of
                     None \<Rightarrow> AssertFailed
                   | Some first \<Rightarrow>
                       (case destroy_n (buffer d) first (?n - ?k) of
                          None \<Rightarrow> Undefined
                        | Some b \<Rightarrow> Ok ((set_buffer this1 b)\<lparr>size_v := ?k\<rparr>)))
                else
                  (case (RawMemory_index (data rhs) pos, RawMemory_index d pos) of
                     (Some first, Some d_first) \<Rightarrow>
                       and_then
                         (uninitialized_copy_n E (buffer (data rhs)) first (?k - ?n) (buffer d) d_first)
                         (\<lambda>b. Ok ((set_buffer this1 b)\<lparr>size_v := ?k\<rparr>))
                         (set_buffer this1)
                   | _ \<Rightarrow> AssertFailed)) = Ok v'"
    by (auto simp: copy_assign_def and_then_eq_Ok)
  from copy_assign_loop_shape[OF d] have dc: "capacity d = ?cap" "released d = released (data this)"
    "length (buffer d) = ?cap"
    using len by (simp_all add: Capacity_def)
  have dn: "buffer d ! i = (if i < min ?n ?k then buffer (data rhs) ! i else buffer (data this) ! i)"
    if "i < ?cap" for i
    using copy_assign_loop_nth[OF d, of i] that len by simp
  have rhs_nth: "\<And>i. i < ?k \<Longrightarrow> buffer (data rhs) ! i = Some (?ys ! i)"
    using ir by (simp add: elements_nth)
  have raw: "\<And>i. ?n \<le> i \<Longrightarrow> i < ?cap \<Longrightarrow> buffer (data this) ! i = None"
    using struct_inv_raw[OF it] by (simp add: raw_at_def)
  obtain b where v': "v' = (set_buffer (this\<lparr>data := d\<rparr>) b)\<lparr>size_v := ?k\<rparr>"
    and lb: "length b = ?cap"
    and bn: "\<And>i. i < ?cap \<Longrightarrow> b ! i = (if i < ?k then Some (?ys ! i) else None)"
  proof (cases "?n > ?k")
    case True
    with rest obtain b where b: "destroy_n (buffer d) ?k (?n - ?k) = Some b"
      and v': "v' = (set_buffer (this\<lparr>data := d\<rparr>) b)\<lparr>size_v := ?k\<rparr>"
      by (auto simp: Let_def RawMemory_index_def split: option.splits if_splits)
    have "length b = ?cap" using destroy_n_length[OF b] dc by simp
    moreover have "b ! i = (if i < ?k then Some (?ys ! i) else None)" if "i < ?cap" for i
      using destroy_n_nth[OF b, of i] that dc dn[OF that] True rhs_nth[of i] raw[of i]
      by (auto simp: min_def)
    ultimately show ?thesis using v' that by blast
  next
    case False
    with rest obtain b where
      b: "uninitialized_copy_n E (buffer (data rhs)) ?n (?k - ?n) (buffer d) ?n = Ok b"
      and v': "v' = (set_buffer (this\<lparr>data := d\<rparr>) b)\<lparr>size_v := ?k\<rparr>"
      by (auto simp: Let_def RawMemory_index_def and_then_eq_Ok min_def
               split: option.splits if_splits)
    have "length b = ?cap" using uninit_copy_length[OF b] dc by simp
    moreover have "b ! i = (if i < ?k then Some (?ys ! i) else None)" if "i < ?cap" for i
    proof -
      have "b ! i = (if ?n \<le> i \<and> i < ?n + (?k - ?n) then buffer (data rhs) ! (?n + (i - ?n))
                     else buffer d ! i)"
        using uninit_copy_nth[OF b, of i] that dc by simp
      then show ?thesis
        using that dn[OF that] False rhs_nth[of i] raw[of i]
        by (auto simp: min_def)
    qed
    ultimately show ?thesis using v' that by blast
  qed
  have "b = slots ?ys ?cap"
  proof (rule nth_equalityI)
    show "length b = length (slots ?ys ?cap)" using lb len by simp
  next
    fix i assume "i < length b"
    then have "i < ?cap" using lb by simp
    then show "b ! i = slots ?ys ?cap ! i" using bn len by (simp add: slots_nth)
  qed
  with v' False dc len show ?thesis
    by (simp add: make_vector_def set_buffer_def)
qed

lemma copy_assign_strong:
  "Capacity this < size_v rhs \<Longrightarrow> copy_assign E this rhs = Throw e s \<Longrightarrow> s = this"
  by (auto simp: copy_assign_def and_then_def Swap_eq split: outcome.splits if_splits)

lemma copy_assign_Ok_spare:
  assumes it: "struct_inv this" and ir: "struct_inv rhs" and ok: "copy_assign E this rhs = Ok v'"
    and eq: "size_v this = size_v rhs"
  shows "size_v this < Capacity this \<and> size_v rhs < Capacity rhs"
proof -
  have le: "size_v rhs \<le> Capacity this" using it eq by (simp add: struct_inv_def)
  from ok le eq obtain d where
    d: "copy_assign_loop E (data this) (data rhs) 0 (size_v rhs) = Ok d"
    and ix: "RawMemory_index (data rhs) (size_v rhs) \<noteq> None" "RawMemory_index d (size_v rhs) \<noteq> None"
    by (auto simp: copy_assign_def and_then_eq_Ok Let_def split: option.splits if_splits)
  from copy_assign_loop_shape[OF d] ix eq show ?thesis
    by (auto simp: RawMemory_index_def Capacity_def split: if_splits)
qed

lemma copy_assign_loop_total:
  "(\<And>a b. \<not> copy_assign_throws E a b) \<Longrightarrow> pos + n \<le> capacity d \<Longrightarrow> pos + n \<le> capacity r \<Longrightarrow>
   (\<And>i. pos \<le> i \<Longrightarrow> i < pos + n \<Longrightarrow> live_at (buffer d) i \<and> live_at (buffer r) i) \<Longrightarrow>
   \<exists>d'. copy_assign_loop E d r pos n = Ok d'"
proof (induction n arbitrary: d pos)
  case 0
  then show ?case by simp
next
  case (Suc n)
  let ?d = "d\<lparr>buffer := (buffer d)[pos := buffer r ! pos]\<rparr>"
  have live: "live_at (buffer d) pos" "live_at (buffer r) pos" using Suc.prems(4)[of pos] by simp_all
  have "\<exists>d'. copy_assign_loop E ?d r (Suc pos) n = Ok d'"
  proof (rule Suc.IH[OF Suc.prems(1)])
    show "Suc pos + n \<le> capacity ?d" "Suc pos + n \<le> capacity r" using Suc.prems(2,3) by simp_all
  next
    fix i assume "Suc pos \<le> i" "i < Suc pos + n"
    then show "live_at (buffer ?d) i \<and> live_at (buffer r) i"
      using Suc.prems(4)[of i] by (simp add: live_at_def)
  qed
  with live Suc.prems(1,2,3) show ?case by (auto simp: RawMemory_index_def)
qed

lemma Vector_copy_total:
  assumes inv: "struct_inv other" and nt: "never_throws E" and al: "can_allocate E (size_v other)"
  shows "\<exists>v'. Vector_copy E other = Ok v'"
proof -
  from nt have nc: "\<And>x. \<not> copy_ctor_throws E x" by (simp add: never_throws_def)
  have "\<exists>b. uninitialized_copy_n E (buffer (data other)) 0 (size_v other)
               (replicate (size_v other) None) 0 = Ok b"
  proof (rule uninit_copy_total[OF nc])
    fix i assume "0 \<le> i" "i < 0 + size_v other"
    then show "live_at (buffer (data other)) i" "raw_at (replicate (size_v other) None) i"
      using inv by (simp_all add: struct_inv_live raw_at_replicate)
  qed
  then show ?thesis
    by (auto simp: Vector_copy_def RawMemory_sized_total[OF al] and_then_eq_Ok begin_v_def)
qed

lemma Vector_destroy_inv: "struct_inv v \<Longrightarrow> Vector_destroy v"
  using destroy_n_total[of 0 "size_v v" "buffer (data v)"]
  by (auto simp: Vector_destroy_def begin_v_def struct_inv_live)

lemma copy_assign_total:
  assumes it: "struct_inv this" and ir: "struct_inv rhs" and nt: "never_throws E"
    and al: "Capacity this < size_v rhs \<Longrightarrow> can_allocate E (size_v rhs)"
    and ok: "size_v this = size_v rhs \<Longrightarrow> size_v this < Capacity this \<and> size_v rhs < Capacity rhs"
  shows "\<exists>v'. copy_assign E this rhs = Ok v'"
proof (cases "Capacity this < size_v rhs")
  case True
  from Vector_copy_total[OF ir nt al[OF True]] obtain c where "Vector_copy E rhs = Ok c" by blast
  with True Vector_destroy_inv[OF it] show ?thesis
    by (simp add: copy_assign_def and_then_def Swap_eq)
next
  case False
  let ?n = "size_v this" and ?k = "size_v rhs" and ?cap = "Capacity this"
  from nt have na: "\<And>a b. \<not> copy_assign_throws E a b" and nc: "\<And>x. \<not> copy_ctor_throws E x"
    by (simp_all add: never_throws_def)
  have len: "?n \<le> ?cap" "?k \<le> ?cap" "length (buffer (data this)) = ?cap" "?k \<le> Capacity rhs"
    "length (buffer (data rhs)) = Capacity rhs"
    using it ir False by (simp_all add: struct_inv_def)
  have "\<exists>d. copy_assign_loop E (data this) (data rhs) 0 (min ?n ?k) = Ok d"
  proof (rule copy_assign_loop_total[OF na])
    show "0 + min ?n ?k \<le> capacity (data this)" "0 + min ?n ?k \<le> capacity (data rhs)"
      using len by (simp_all add: Capacity_def min_def)
  next
    fix i assume "0 \<le> i" "i < 0 + min ?n ?k"
    then show "live_at (buffer (data this)) i \<and> live_at (buffer (data rhs)) i"
      using it ir by (simp add: struct_inv_live)
  qed
  then obtain d where d: "copy_assign_loop E (data this) (data rhs) 0 (min ?n ?k) = Ok d" by blast
  note dc = copy_assign_loop_shape[OF d]
  have dn: "buffer d ! i = (if i < min ?n ?k then buffer (data rhs) ! i else buffer (data this) ! i)"
    if "i < ?cap" for i
    using copy_assign_loop_nth[OF d, of i] that len by simp
  show ?thesis
  proof (cases "?n > ?k")
    case True
    have "\<exists>b. destroy_n (buffer d) ?k (?n - ?k) = Some b"
    proof (rule destroy_n_total)
      fix i assume "?k \<le> i" "i < ?k + (?n - ?k)"
      then have i: "i < ?n" "\<not> i < min ?n ?k" using True by simp_all
      then have "i < ?cap" using len by simp
      from dn[OF this] i struct_inv_live[OF it i(1)] dc len
      show "live_at (buffer d) i" by (simp add: live_at_def)
    qed
    with d True False len dc show ?thesis
      by (auto simp: copy_assign_def and_then_def Let_def RawMemory_index_def Capacity_def)
  next
    case nle: False
    have "\<exists>b. uninitialized_copy_n E (buffer (data rhs)) ?n (?k - ?n) (buffer d) ?n = Ok b"
    proof (rule uninit_copy_total[OF nc])
      fix i assume "?n \<le> i" "i < ?n + (?k - ?n)"
      then have i: "i < ?k" "\<not> i < min ?n ?k" "?n \<le> i" using nle by simp_all
      then have c: "i < ?cap" using len by simp
      show "live_at (buffer (data rhs)) i" using ir i by (simp add: struct_inv_live)
      from dn[OF c] i struct_inv_raw[OF it i(3) c] dc len c
      show "raw_at (buffer d) i" by (simp add: raw_at_def)
    qed
    then obtain b where
      b: "uninitialized_copy_n E (buffer (data rhs)) ?n (?k - ?n) (buffer d) ?n = Ok b" by blast
    have "?n < Capacity rhs \<and> ?n < ?cap"
    proof (cases "?n = ?k")
      case True
      with ok show ?thesis by simp
    next
      case False
      with nle len show ?thesis by simp
    qed
    with d b nle False dc show ?thesis
      by (simp add: copy_assign_def and_then_def Let_def RawMemory_index_def Capacity_def min_def)
  qed
qed

lemma Vector_sized_Ok:
  assumes ok: "Vector_sized E n = Ok v'"
  shows "v' = make_vector (replicate n (value_init E)) n []"
proof -
  from ok obtain m b where m: "RawMemory_sized E n = Inr m"
    and b: "uninitialized_value_construct_n E (buffer m) 0 n = Ok b"
    and v': "v' = \<lparr>data = m\<lparr>buffer := b\<rparr>, size_v = n\<rparr>"
    by (auto simp: Vector_sized_def and_then_eq_Ok split: sum.splits)
  note m_eq = RawMemory_sized_Inr[OF m]
  have "b = slots (replicate n (value_init E)) n"
  proof (rule nth_equalityI)
    show "length b = length (slots (replicate n (value_init E)) n)"
      using value_construct_length[OF b] m_eq by simp
  next
    fix i assume "i < length b"
    then have "i < n" using value_construct_length[OF b] m_eq by simp
    then show "b ! i = slots (replicate n (value_init E)) n ! i"
      using value_construct_nth[OF b, of i] m_eq by (simp add: slots_nth)
  qed
  with v' m_eq show ?thesis by (simp add: make_vector_def)
qed

lemma struct_inv_sizes: "struct_inv u \<Longrightarrow> length (elements u) = size_v u \<and> size_v u \<le> Capacity u"
  by (simp add: length_elements struct_inv_def)

lemma make_vector_invI: "u = make_vector xs cap rel \<Longrightarrow> length xs \<le> cap \<Longrightarrow> struct_inv u"
  by (simp add: make_vector_inv)

lemma returns_keep_invariant:
  "struct_inv (Vector_default :: 'a vector)"
  "Vector_sized E n = Ok v' \<Longrightarrow> struct_inv v'"
  "struct_inv v \<Longrightarrow> Vector_copy E v = Ok v' \<Longrightarrow> struct_inv v'"
  "struct_inv v \<Longrightarrow> struct_inv (fst (Vector_move v)) \<and> struct_inv (snd (Vector_move v))"
  "struct_inv v \<Longrightarrow> struct_inv w \<Longrightarrow> copy_assign E v w = Ok v' \<Longrightarrow> struct_inv v'"
  "struct_inv v \<Longrightarrow> struct_inv w \<Longrightarrow> struct_inv (fst (Swap v w)) \<and> struct_inv (snd (Swap v w))"
  "struct_inv v \<Longrightarrow> Reserve E v n = Ok v' \<Longrightarrow> struct_inv v'"
  "struct_inv v \<Longrightarrow> in_address_space v \<Longrightarrow> Resize E v n = Ok v' \<Longrightarrow> struct_inv v'"
  "struct_inv v \<Longrightarrow> PopBack v = Ok v' \<Longrightarrow> struct_inv v'"
  "struct_inv v \<Longrightarrow> in_address_space v \<Longrightarrow> pos \<le> size_v v \<Longrightarrow>
     Emplace E v pos args = Ok (v', p) \<Longrightarrow> struct_inv v'"
  "struct_inv v \<Longrightarrow> Erase E v pos = Ok (v', p) \<Longrightarrow> struct_inv v'"
proof -
  show "struct_inv (Vector_default :: 'a vector)"
    by (simp add: Vector_default_make_vector make_vector_inv)
  show "struct_inv v'" if "Vector_sized E n = Ok v'"
    using Vector_sized_Ok[OF that] by (rule make_vector_invI) simp
  show "struct_inv v'" if "struct_inv v" "Vector_copy E v = Ok v'"
    using Vector_copy_Ok[OF that] by (rule make_vector_invI) (use struct_inv_sizes[OF that(1)] in simp)
  show "struct_inv (fst (Vector_move v)) \<and> struct_inv (snd (Vector_move v))" if "struct_inv v"
    using that
    by (simp add: Vector_move_def RawMemory_move_def RawMemory_default_def struct_inv_def
          Capacity_def)
  show "struct_inv v'" if "struct_inv v" "struct_inv w" "copy_assign E v w = Ok v'"
    using copy_assign_Ok[OF that] by (rule make_vector_invI) (use struct_inv_sizes[OF that(2)] in simp)
  show "struct_inv (fst (Swap v w)) \<and> struct_inv (snd (Swap v w))" if "struct_inv v" "struct_inv w"
    using that by (simp add: Swap_eq)
  show "struct_inv v'" if "struct_inv v" "Reserve E v n = Ok v'"
  proof (cases "n \<le> Capacity v")
    case True
    with that show ?thesis by (simp add: Reserve_noop)
  next
    case False
    then have gt: "Capacity v < n" by simp
    from Reserve_Ok[OF that(1) gt that(2)] show ?thesis
      by (rule make_vector_invI) (use struct_inv_sizes[OF that(1)] gt in simp)
  qed
  show "struct_inv v'" if "struct_inv v" "in_address_space v" "Resize E v n = Ok v'"
    using Resize_Ok[OF that] by (rule make_vector_invI) (use struct_inv_sizes[OF that(1)] in \<open>simp add: min_def\<close>)
  show "struct_inv v'" if "struct_inv v" "PopBack v = Ok v'"
    using PopBack_Ok[OF that, THEN conjunct2] by (rule make_vector_invI) (use struct_inv_sizes[OF that(1)] in auto)
  show "struct_inv v'"
    if "struct_inv v" "in_address_space v" "pos \<le> size_v v" "Emplace E v pos args = Ok (v', p)"
  proof -
    from Emplace_Ok[OF that] obtain x where
      "v' = make_vector (take pos (elements v) @ x # drop pos (elements v)) (grown_capacity v)
              (if size_v v = Capacity v then [] else released (data v))" by blast
    then show ?thesis
      by (rule make_vector_invI) (use struct_inv_sizes[OF that(1)] that(3) in \<open>simp add: grown_capacity_def\<close>)
  qed
  show "struct_inv v'" if "struct_inv v" "Erase E v pos = Ok (v', p)"
    using Erase_Ok[OF that, THEN conjunct2, THEN conjunct2]
    by (rule make_vector_invI) (use struct_inv_sizes[OF that(1)] in auto)
qed

subsection \<open>Calls left by an exception\<close>

lemma and_then_eq_Throw:
  "and_then r f u = Throw e s \<longleftrightarrow>
     (\<exists>x. r = Ok x \<and> f x = Throw e s) \<or> (\<exists>s0. r = Throw e s0 \<and> s = u s0)"
  by (cases r) (auto simp: and_then_def)

lemma map_outcome_eq_Throw:
  "map_outcome f g r = Throw e s \<longleftrightarrow> (\<exists>s0. r = Throw e s0 \<and> s = g s0)"
  by (cases r) auto

lemma length_liveness [simp]: "length (liveness buf) = length buf"
  by (simp add: liveness_def)

lemma liveness_update_live: "live_at buf i \<Longrightarrow> liveness (buf[i := Some x]) = liveness buf"
  by (auto simp: liveness_def live_at_def list_eq_iff_nth_eq nth_list_update)

lemma liveness_update_same:
  "i < length buf \<Longrightarrow> (y = None) = (buf ! i = None) \<Longrightarrow> liveness (buf[i := y]) = liveness buf"
  by (auto simp: liveness_def list_eq_iff_nth_eq nth_list_update)

lemma struct_inv_liveness:
  "struct_inv v \<longleftrightarrow>
     size_v v \<le> Capacity v \<and> length (liveness (buffer (data v))) = Capacity v \<and>
     list_all (\<lambda>x. x) (take (size_v v) (liveness (buffer (data v)))) \<and>
     list_all (\<lambda>x. \<not> x) (drop (size_v v) (liveness (buffer (data v))))"
  by (simp add: struct_inv_def liveness_def list_all_length flip: take_map drop_map)

lemma struct_inv_cong:
  "struct_inv v \<Longrightarrow> size_v v' = size_v v \<Longrightarrow> capacity (data v') = capacity (data v) \<Longrightarrow>
   liveness (buffer (data v')) = liveness (buffer (data v)) \<Longrightarrow> struct_inv v'"
  by (simp add: struct_inv_liveness Capacity_def)

lemma value_construct_Throw: "uninitialized_value_construct_n E buf f n = Throw e b \<Longrightarrow> b = buf"
proof (induction n arbitrary: buf f b)
  case 0
  then show ?case by simp
next
  case (Suc n)
  show ?case
  proof (cases "value_init_throws E")
    case True
    with Suc.prems show ?thesis by (auto split: if_splits)
  next
    case False
    with Suc.prems obtain b' where raw: "raw_at buf f"
      and rec: "uninitialized_value_construct_n E (buf[f := Some (value_init E)]) (Suc f) n = Throw e b'"
      and b: "b = b'[f := None]"
      by (auto split: if_splits outcome.splits)
    from Suc.IH[OF rec] b raw show ?thesis
      by (simp add: raw_at_def list_update_same_conv)
  qed
qed

lemma uninit_copy_Throw: "uninitialized_copy_n E src f n dst d = Throw e b \<Longrightarrow> b = dst"
proof (induction n arbitrary: dst f d b)
  case 0
  then show ?case by simp
next
  case (Suc n)
  show ?case
  proof (cases "copy_ctor_throws E (the (src ! f))")
    case True
    with Suc.prems show ?thesis by (auto split: if_splits)
  next
    case False
    with Suc.prems obtain b' where raw: "raw_at dst d"
      and rec: "uninitialized_copy_n E src (Suc f) n (dst[d := src ! f]) (Suc d) = Throw e b'"
      and b: "b = b'[d := None]"
      by (auto split: if_splits outcome.splits)
    from Suc.IH[OF rec] b raw show ?thesis
      by (simp add: raw_at_def list_update_same_conv)
  qed
qed

lemma uninit_move_Throw:
  "uninitialized_move_n E src f n dst d = Throw e (s, b) \<Longrightarrow> b = dst \<and> liveness s = liveness src"
proof (induction n arbitrary: src dst f d s b)
  case 0
  then show ?case by simp
next
  case (Suc n)
  let ?src = "src[f := Some (moved_from E (the (src ! f)))]"
  show ?case
  proof (cases "move_ctor_throws E (the (src ! f))")
    case True
    with Suc.prems show ?thesis by (auto split: if_splits)
  next
    case False
    with Suc.prems obtain b' where raw: "raw_at dst d" and live: "live_at src f"
      and rec: "uninitialized_move_n E ?src (Suc f) n (dst[d := src ! f]) (Suc d) = Throw e (s, b')"
      and b: "b = b'[d := None]"
      by (auto split: if_splits outcome.splits)
    from Suc.IH[OF rec] b raw live show ?thesis
      by (simp add: raw_at_def list_update_same_conv liveness_update_live)
  qed
qed

lemma uninit_move_Ok_liveness:
  "uninitialized_move_n E src f n dst d = Ok (s, b) \<Longrightarrow> liveness s = liveness src"
proof (induction n arbitrary: src dst f d)
  case 0
  then show ?case by simp
next
  case (Suc n)
  let ?src = "src[f := Some (moved_from E (the (src ! f)))]"
  from Suc.prems have live: "live_at src f"
    and rec: "uninitialized_move_n E ?src (Suc f) n (dst[d := src ! f]) (Suc d) = Ok (s, b)"
    by (auto split: if_splits outcome.splits)
  from Suc.IH[OF rec] live show ?case by (simp add: liveness_update_live)
qed

lemma liveness_move_step:
  "live_at buf a \<Longrightarrow> live_at buf c \<Longrightarrow>
   liveness (buf[a := Some x, c := buf ! a]) = liveness buf"
  by (auto simp: liveness_def live_at_def list_eq_iff_nth_eq nth_list_update)

lemma move_range_Throw:
  "move_range E buf f n d = Throw e b \<Longrightarrow> liveness b = liveness buf"
proof (induction n arbitrary: buf f d)
  case 0
  then show ?case by simp
next
  case (Suc n)
  let ?buf = "buf[f := Some (moved_from E (the (buf ! f))), d := buf ! f]"
  show ?case
  proof (cases "move_assign_throws E (the (buf ! d)) (the (buf ! f))")
    case True
    with Suc.prems show ?thesis by (auto split: if_splits)
  next
    case False
    with Suc.prems have live: "live_at buf f" "live_at buf d"
      and rec: "move_range E ?buf (Suc f) n (Suc d) = Throw e b"
      by (auto split: if_splits)
    from Suc.IH[OF rec] live show ?thesis by (simp add: liveness_move_step)
  qed
qed

lemma copy_assign_loop_Throw:
  "copy_assign_loop E d r pos n = Throw e d' \<Longrightarrow>
   liveness (buffer d') = liveness (buffer d) \<and> capacity d' = capacity d"
proof (induction n arbitrary: d pos)
  case 0
  then show ?case by simp
next
  case (Suc n)
  let ?d = "d\<lparr>buffer := (buffer d)[pos := buffer r ! pos]\<rparr>"
  show ?case
  proof (cases "copy_assign_throws E (the (buffer d ! pos)) (the (buffer r ! pos))")
    case True
    with Suc.prems show ?thesis
      by (auto simp: RawMemory_index_def split: if_splits)
  next
    case False
    with Suc.prems have live: "live_at (buffer d) pos" "live_at (buffer r) pos"
      and rec: "copy_assign_loop E ?d r (Suc pos) n = Throw e d'"
      by (auto simp: RawMemory_index_def split: if_splits)
    from live have "liveness ((buffer d)[pos := buffer r ! pos]) = liveness (buffer d)"
      by (intro liveness_update_same) (auto simp: live_at_def)
    with Suc.IH[OF rec] show ?thesis by simp
  qed
qed

lemma copy_assign_loop_Ok_liveness:
  "copy_assign_loop E d r pos n = Ok d' \<Longrightarrow> liveness (buffer d') = liveness (buffer d)"
proof (induction n arbitrary: d pos)
  case 0
  then show ?case by simp
next
  case (Suc n)
  let ?d = "d\<lparr>buffer := (buffer d)[pos := buffer r ! pos]\<rparr>"
  from Suc.prems have live: "live_at (buffer d) pos" "live_at (buffer r) pos"
    and rec: "copy_assign_loop E ?d r (Suc pos) n = Ok d'"
    by (auto simp: RawMemory_index_def split: if_splits)
  from live have "liveness ((buffer d)[pos := buffer r ! pos]) = liveness (buffer d)"
    by (intro liveness_update_same) (auto simp: live_at_def)
  with Suc.IH[OF rec] show ?case by simp
qed

lemma relocate_keeps_shape:
  assumes "relocate E f n d (v, m) = Ok (v1, m1) \<or> relocate E f n d (v, m) = Throw e (v1, m1)"
  shows "size_v v1 = size_v v \<and> capacity (data v1) = capacity (data v) \<and>
         liveness (buffer (data v1)) = liveness (buffer (data v))"
  using assms
  by (auto simp: relocate_def set_buffer_def map_outcome_eq_Ok map_outcome_eq_Throw
           dest: uninit_move_Ok_liveness uninit_move_Throw split: if_splits)

lemma Reserve_Throw:
  assumes inv: "struct_inv v" and thr: "Reserve E v n = Throw e v'"
  shows "struct_inv v'"
proof -
  from thr consider "v' = v"
    | m v1 m1 where "relocate E 0 (size_v v) 0 (v, m) = Throw e (v1, m1)" "v' = v1"
    | m st where "relocate E 0 (size_v v) 0 (v, m) = Ok st" "adopt st = Throw e v'"
    by (auto simp: Reserve_def FillNewData_def begin_v_def and_then_eq_Throw
             split: if_splits sum.splits)
  then show ?thesis
  proof cases
    case 1
    with inv show ?thesis by simp
  next
    case 2
    from relocate_keeps_shape[of E 0 "size_v v" 0 v m v1 m1 e] 2 inv show ?thesis
      by (auto intro: struct_inv_cong)
  next
    case 3
    then show ?thesis by (auto simp: adopt_def split: prod.splits option.splits)
  qed
qed

lemma Resize_Throw:
  assumes inv: "struct_inv v" and thr: "Resize E v n = Throw e v'"
  shows "struct_inv v'"
proof -
  from thr have ge: "\<not> n < size_v v"
    by (auto simp: Resize_def split: if_splits option.splits)
  from thr ge consider "Capacity v < n" "Reserve E v (max (wrap (Capacity v * 2)) n) = Throw e v'"
    | v1 b where "(if Capacity v < n then Reserve E v (max (wrap (Capacity v * 2)) n) else Ok v) = Ok v1"
        "uninitialized_value_construct_n E (buffer (data v1)) (end_v v1) (n - size_v v1) = Throw e b"
        "v' = set_buffer v1 b"
    by (auto simp: Resize_def and_then_eq_Throw split: if_splits)
  then show ?thesis
  proof cases
    case 1
    with Reserve_Throw[OF inv] show ?thesis by simp
  next
    case 2
    from 2(1) inv have "struct_inv v1"
      by (auto simp: returns_keep_invariant(7) split: if_splits)
    moreover from value_construct_Throw[OF 2(2)] 2(3) have "v' = v1" by (simp add: set_buffer_def)
    ultimately show ?thesis by simp
  qed
qed

lemma Erase_Throw:
  assumes inv: "struct_inv v" and thr: "Erase E v pos = Throw e v'"
  shows "struct_inv v'"
proof -
  have nb: "PopBack u \<noteq> Throw e w" for u w :: "'a vector"
    by (auto simp: PopBack_def split: option.splits)
  from thr nb obtain b where
    "move_range E (buffer (data v)) (Suc pos) (size_v v - Suc pos) pos = Throw e b"
    "v' = set_buffer v b"
    by (auto simp: Erase_def begin_v_def end_v_def Let_def and_then_eq_Throw split: if_splits)
  with move_range_Throw[OF this(1)] inv show ?thesis
    by (auto simp: set_buffer_def intro: struct_inv_cong)
qed

lemma copy_assign_Throw:
  assumes it: "struct_inv this" and thr: "copy_assign E this rhs = Throw e v'"
  shows "struct_inv v'"
proof (cases "Capacity this < size_v rhs")
  case True
  from copy_assign_strong[OF True thr] it show ?thesis by simp
next
  case False
  let ?n = "size_v this" and ?k = "size_v rhs"
  from thr False consider d where
      "copy_assign_loop E (data this) (data rhs) 0 (min ?n ?k) = Throw e d" "v' = this\<lparr>data := d\<rparr>"
    | d b first d_first where
      "copy_assign_loop E (data this) (data rhs) 0 (min ?n ?k) = Ok d"
      "uninitialized_copy_n E (buffer (data rhs)) first (?k - ?n) (buffer d) d_first = Throw e b"
      "v' = set_buffer (this\<lparr>data := d\<rparr>) b"
    by (auto simp: copy_assign_def and_then_eq_Throw Let_def split: if_splits option.splits)
  then show ?thesis
  proof cases
    case 1
    from copy_assign_loop_Throw[OF 1(1)] 1(2) it show ?thesis
      by (auto intro: struct_inv_cong)
  next
    case 2
    from uninit_copy_Throw[OF 2(2)] 2(3) have v': "v' = this\<lparr>data := d\<rparr>" by (simp add: set_buffer_def)
    have "liveness (buffer d) = liveness (buffer (data this))"
      using copy_assign_loop_Ok_liveness[OF 2(1)] .
    with v' copy_assign_loop_shape[OF 2(1)] it show ?thesis
      by (auto intro: struct_inv_cong)
  qed
qed

lemma adopt_no_Throw: "adopt st \<noteq> Throw e w"
  by (auto simp: adopt_def split: prod.splits option.splits)

lemma construct_at_Throw: "construct_at buf p args = Throw e b \<longleftrightarrow> args = Throws \<and> e = ElementFailure \<and> b = buf"
  by (auto simp: construct_at_def split: init.splits)

lemma InsertWithoutRelocation_Throw:
  assumes inv: "struct_inv v" and thr: "InsertWithoutRelocation E v ip pos args = Throw e v'"
  shows "struct_inv v'"
proof -
  from thr adopt_no_Throw consider "v' = v"
    | m v1 m1 where "relocate E 0 ip 0 (v, m) = Throw e (v1, m1)" "v' = v1"
    | m v1 m1 v2 m2 where "relocate E 0 ip 0 (v, m) = Ok (v1, m1)"
        "relocate E ip (size_v v - ip) (Suc ip) (v1, m1) = Throw e (v2, m2)" "v' = v2"
    by (auto simp: InsertWithoutRelocation_def FillNewData_def begin_v_def and_then_eq_Throw
             split: sum.splits)
  then show ?thesis
  proof cases
    case 1
    with inv show ?thesis by simp
  next
    case 2
    from relocate_keeps_shape[of E 0 ip 0 v m v1 m1 e] 2 inv show ?thesis
      by (auto intro: struct_inv_cong)
  next
    case 3
    from relocate_keeps_shape[of E 0 ip 0 v m v1 m1 e] 3(1) inv have "struct_inv v1"
      by (auto intro: struct_inv_cong)
    with relocate_keeps_shape[of E ip "size_v v - ip" "Suc ip" v1 m1 v2 m2 e] 3(2,3)
    show ?thesis by (auto intro: struct_inv_cong)
  qed
qed

lemma struct_inv_rollback: "struct_inv (rollback v) = struct_inv v"
  by (simp add: rollback_def struct_inv_def Capacity_def)

lemma move_backward_Throw:
  "move_backward E buf f n d = Throw e b \<Longrightarrow> liveness b = liveness buf"
proof (induction n arbitrary: buf d)
  case 0
  then show ?case by simp
next
  case (Suc n)
  let ?buf = "buf[f + n := Some (moved_from E (the (buf ! (f + n)))), d - 1 := buf ! (f + n)]"
  show ?case
  proof (cases "move_assign_throws E (the (buf ! (d - 1))) (the (buf ! (f + n)))")
    case True
    with Suc.prems show ?thesis by (auto split: if_splits)
  next
    case False
    with Suc.prems have live: "live_at buf (f + n)" "live_at buf (d - 1)"
      and rec: "move_backward E ?buf f n (d - 1) = Throw e b"
      by (auto split: if_splits)
    from Suc.IH[OF rec] live show ?thesis by (simp add: liveness_move_step)
  qed
qed

lemma move_backward_Ok_liveness:
  "move_backward E buf f n d = Ok b \<Longrightarrow> liveness b = liveness buf"
proof (induction n arbitrary: buf d)
  case 0
  then show ?case by simp
next
  case (Suc n)
  let ?buf = "buf[f + n := Some (moved_from E (the (buf ! (f + n)))), d - 1 := buf ! (f + n)]"
  from Suc.prems have live: "live_at buf (f + n)" "live_at buf (d - 1)"
    and rec: "move_backward E ?buf f n (d - 1) = Ok b"
    by (auto split: if_splits)
  from Suc.IH[OF rec] live show ?case by (simp add: liveness_move_step)
qed

lemma live_beyond_size_breaks:
  assumes "size_v u < length (buffer (data u))" "liveness (buffer (data u)) ! size_v u"
  shows "\<not> struct_inv u"
proof
  assume inv: "struct_inv u"
  then have "size_v u < Capacity u" using assms(1) by (simp add: struct_inv_def)
  from struct_inv_raw[OF inv _ this] assms show False
    by (simp add: raw_at_def liveness_def)
qed

text \<open>
  An insertion before the end into spare capacity that is left by an exception: the
  invariant survives exactly when the exception came from the constructor of the new
  element or from the move constructor of the last element, that is before the slot at
  \<open>end()\<close> was constructed.
\<close>

lemma Emplace_in_place_Throw:
  assumes inv: "struct_inv v" and spare: "size_v v < Capacity v" and pos: "pos < size_v v"
    and thr: "Emplace E v pos args = Throw e v'"
  shows "struct_inv v' \<longleftrightarrow> args = Throws \<or> move_ctor_throws E (last (elements v))"
proof -
  let ?buf = "buffer (data v)" and ?n = "size_v v"
  have len: "length ?buf = Capacity v" using inv by (simp add: struct_inv_def)
  have ne: "elements v \<noteq> []" using pos length_elements[OF inv] by auto
  have lastv: "the (?buf ! (?n - 1)) = last (elements v)"
    using elements_nth[OF inv, of "?n - 1"] pos length_elements[OF inv] last_conv_nth[OF ne]
    by simp
  have live: "live_at ?buf (?n - 1)" "raw_at ?buf ?n"
    using inv spare pos by (simp_all add: struct_inv_live struct_inv_raw)
  from thr pos spare have t: "InsertWithRelocation E v pos pos args = Throw e v'"
    by (auto simp: Emplace_def begin_v_def end_v_def Let_def and_then_eq_Throw split: if_splits)
  show ?thesis
  proof (cases args)
    case Throws
    with t pos have "v' = rollback v" by (simp add: InsertWithRelocation_def end_v_def)
    with inv Throws show ?thesis by (simp add: struct_inv_rollback)
  next
    case (Constructs x)
    show ?thesis
    proof (cases "move_ctor_throws E (last (elements v))")
      case True
      with t pos Constructs live lastv have "v' = rollback (set_buffer v ?buf)"
        by (simp add: InsertWithRelocation_def end_v_def and_then_def)
      then have "v' = rollback v" by (simp add: set_buffer_def)
      with inv True show ?thesis by (simp add: struct_inv_rollback)
    next
      case False
      let ?b1 = "?buf[?n - 1 := Some (moved_from E (the (?buf ! (?n - 1)))), ?n := ?buf ! (?n - 1)]"
      have b1: "uninitialized_move_n_within E ?buf (?n - 1) 1 ?n = Ok ?b1"
        using False live lastv by simp
      have l1: "liveness ?b1 ! ?n" "length ?b1 = Capacity v"
        using live spare len by (simp_all add: liveness_def live_at_def)
      from t pos Constructs b1 spare obtain b where
        b: "liveness b = liveness ?b1" and v': "v' = rollback (set_buffer v b)"
        by (auto simp: InsertWithRelocation_def end_v_def and_then_def RawMemory_plus_def
              RawMemory_index_def Capacity_def move_assign_at_def
              dest: move_backward_Throw move_backward_Ok_liveness liveness_update_live
              split: outcome.splits if_splits)
      from b l1 have "length b = Capacity v" "liveness b ! ?n"
        by (metis length_liveness, simp)
      with v' spare have "\<not> struct_inv v'"
        by (intro live_beyond_size_breaks) (simp_all add: rollback_def set_buffer_def)
      with Constructs False show ?thesis by simp
    qed
  qed
qed

lemma exceptions_keep_invariant:
  "struct_inv v \<Longrightarrow> copy_assign E v w = Throw e v' \<Longrightarrow> struct_inv v'"
  "struct_inv v \<Longrightarrow> Reserve E v n = Throw e v' \<Longrightarrow> struct_inv v'"
  "struct_inv v \<Longrightarrow> Resize E v n = Throw e v' \<Longrightarrow> struct_inv v'"
  "struct_inv v \<Longrightarrow> Erase E v pos = Throw e v' \<Longrightarrow> struct_inv v'"
  "struct_inv v \<Longrightarrow> size_v v = Capacity v \<Longrightarrow> Emplace E v pos args = Throw e v' \<Longrightarrow> struct_inv v'"
  "struct_inv v \<Longrightarrow> EmplaceBack E v args = Throw e v' \<Longrightarrow> struct_inv v'"
proof -
  show "struct_inv v'" if "struct_inv v" "copy_assign E v w = Throw e v'"
    using that by (rule copy_assign_Throw)
  show "struct_inv v'" if "struct_inv v" "Reserve E v n = Throw e v'"
    using that by (rule Reserve_Throw)
  show "struct_inv v'" if "struct_inv v" "Resize E v n = Throw e v'"
    using that by (rule Resize_Throw)
  show "struct_inv v'" if "struct_inv v" "Erase E v pos = Throw e v'"
    using that by (rule Erase_Throw)
  show full: "struct_inv v'"
    if "struct_inv v" "size_v v = Capacity v" "Emplace E v pos args = Throw e v'"
    for pos and v v' :: "'a vector" and E args e
  proof -
    from that(2,3) have "InsertWithoutRelocation E v pos pos args = Throw e v'"
      by (auto simp: Emplace_def begin_v_def end_v_def Let_def and_then_eq_Throw split: if_splits)
    with that(1) show ?thesis by (rule InsertWithoutRelocation_Throw)
  qed
  show "struct_inv v'" if "struct_inv v" "EmplaceBack E v args = Throw e v'"
  proof (cases "size_v v = Capacity v")
    case True
    from that(2) have "Emplace E v (size_v v) args = Throw e v'"
      by (simp add: EmplaceBack_def end_v_def)
    from full[OF that(1) True this] show ?thesis .
  next
    case False
    with that(2) have "v' = rollback (set_buffer v (buffer (data v)))"
      by (auto simp: EmplaceBack_def Emplace_def InsertWithRelocation_def begin_v_def end_v_def
            Let_def and_then_eq_Throw construct_at_Throw split: if_splits)
    then have "v' = rollback v" by (simp add: set_buffer_def)
    with that(1) show ?thesis by (simp add: struct_inv_rollback)
  qed
qed

subsection \<open>The bound on the capacity\<close>

lemma RawMemory_sized_allocated:
  "RawMemory_sized E n = Inr m \<Longrightarrow> bounded_allocator E \<Longrightarrow> n \<le> ptrdiff_max"
  by (auto simp: RawMemory_sized_def Allocate_def bounded_allocator_def ptrdiff_max_def
           split: if_splits)

text \<open>
  With an allocator that never hands out more than \<open>PTRDIFF_MAX\<close> slots, every vector
  that the operations return stays within the bound, starting from the empty vector.
\<close>

lemma returns_keep_address_space:
  "in_address_space (Vector_default :: 'a vector)"
  "bounded_allocator (E :: 'a env) \<Longrightarrow> Vector_sized E n = Ok v' \<Longrightarrow> in_address_space v'"
  "bounded_allocator E \<Longrightarrow> struct_inv v \<Longrightarrow> Vector_copy E v = Ok v' \<Longrightarrow> in_address_space v'"
  "bounded_allocator E \<Longrightarrow> struct_inv v \<Longrightarrow> struct_inv w \<Longrightarrow> in_address_space v \<Longrightarrow>
     copy_assign E v w = Ok v' \<Longrightarrow> in_address_space v'"
  "bounded_allocator E \<Longrightarrow> struct_inv v \<Longrightarrow> in_address_space v \<Longrightarrow>
     Reserve E v n = Ok v' \<Longrightarrow> in_address_space v'"
  "bounded_allocator E \<Longrightarrow> struct_inv v \<Longrightarrow> in_address_space v \<Longrightarrow>
     Resize E v n = Ok v' \<Longrightarrow> in_address_space v'"
  "struct_inv v \<Longrightarrow> in_address_space v \<Longrightarrow> PopBack v = Ok v' \<Longrightarrow> in_address_space v'"
  "bounded_allocator E \<Longrightarrow> struct_inv v \<Longrightarrow> in_address_space v \<Longrightarrow> pos \<le> size_v v \<Longrightarrow>
     Emplace E v pos args = Ok (v', p) \<Longrightarrow> in_address_space v'"
  "struct_inv v \<Longrightarrow> in_address_space v \<Longrightarrow> Erase E v pos = Ok (v', p) \<Longrightarrow> in_address_space v'"
proof -
  show "in_address_space (Vector_default :: 'a vector)"
    by (simp add: Vector_default_make_vector in_address_space_def)
  show "in_address_space v'" if "bounded_allocator E" "Vector_sized E n = Ok v'"
  proof -
    from that(2) obtain m where "RawMemory_sized E n = Inr m"
      by (auto simp: Vector_sized_def split: sum.splits)
    from RawMemory_sized_allocated[OF this that(1)] Vector_sized_Ok[OF that(2)]
    show ?thesis by (simp add: in_address_space_def)
  qed
  show copy: "in_address_space v'"
    if "bounded_allocator E" "struct_inv v" "Vector_copy E v = Ok v'"
    for E and v v' :: "'a vector"
  proof -
    from that(3) obtain m where "RawMemory_sized E (size_v v) = Inr m"
      by (auto simp: Vector_copy_def split: sum.splits)
    from RawMemory_sized_allocated[OF this that(1)] Vector_copy_Ok[OF that(2,3)]
    show ?thesis by (simp add: in_address_space_def)
  qed
  show "in_address_space v'"
    if "bounded_allocator E" "struct_inv v" "struct_inv w" "in_address_space v"
      "copy_assign E v w = Ok v'"
  proof (cases "Capacity v < size_v w")
    case True
    with that(5) have "Vector_copy E w = Ok v'"
      by (auto simp: copy_assign_def and_then_eq_Ok Swap_eq split: if_splits)
    from copy[OF that(1,3) this] show ?thesis .
  next
    case False
    with copy_assign_Ok[OF that(2,3,5)] that(4) show ?thesis
      by (simp add: in_address_space_def)
  qed
  show res: "in_address_space v'"
    if "bounded_allocator E" "struct_inv v" "in_address_space v" "Reserve E v n = Ok v'"
    for E n and v v' :: "'a vector"
  proof (cases "n \<le> Capacity v")
    case True
    with that(3,4) show ?thesis by (simp add: Reserve_noop)
  next
    case False
    then have gt: "Capacity v < n" by simp
    with that(4) obtain m where "RawMemory_sized E n = Inr m"
      by (auto simp: Reserve_def split: sum.splits)
    from RawMemory_sized_allocated[OF this that(1)] Reserve_Ok[OF that(2) gt that(4)]
    show ?thesis by (simp add: in_address_space_def)
  qed
  show "in_address_space v'"
    if "bounded_allocator E" "struct_inv v" "in_address_space v" "Resize E v n = Ok v'"
  proof (cases "Capacity v < n \<and> \<not> n < size_v v")
    case True
    with that(4) obtain v1 where "Reserve E v (max (wrap (Capacity v * 2)) n) = Ok v1"
      by (auto simp: Resize_def and_then_eq_Ok split: if_splits)
    have gt: "Capacity v < max (wrap (Capacity v * 2)) n" using True by (auto simp: max_def)
    from res[OF that(1-3) \<open>Reserve E v (max (wrap (Capacity v * 2)) n) = Ok v1\<close>]
      Reserve_Ok[OF that(2) gt \<open>Reserve E v (max (wrap (Capacity v * 2)) n) = Ok v1\<close>]
    have "max (wrap (Capacity v * 2)) n \<le> ptrdiff_max"
      by (simp add: in_address_space_def)
    moreover have "wrap (Capacity v * 2) = 2 * Capacity v"
      using wrap_double[OF that(3), of "Capacity v"] by (simp add: mult.commute)
    ultimately show ?thesis
      using Resize_Ok[OF that(2-4)] True by (simp add: in_address_space_def)
  next
    case False
    have "size_v v \<le> Capacity v" using that(2) by (simp add: struct_inv_def)
    with False have "n \<le> Capacity v" by auto
    with Resize_Ok[OF that(2-4)] that(3) show ?thesis by (simp add: in_address_space_def)
  qed
  show "in_address_space v'" if "struct_inv v" "in_address_space v" "PopBack v = Ok v'"
    using PopBack_Ok[OF that(1,3)] that(2) by (simp add: in_address_space_def)
  show "in_address_space v'"
    if "bounded_allocator E" "struct_inv v" "in_address_space v" "pos \<le> size_v v"
      "Emplace E v pos args = Ok (v', p)"
  proof -
    from Emplace_Ok[OF that(2-5)] have cap: "Capacity v' = grown_capacity v" by auto
    show ?thesis
    proof (cases "size_v v = Capacity v")
      case True
      have w: "(if size_v v = 0 then 1 else wrap (size_v v * 2)) = grown_capacity v"
        using wrap_double[OF that(3), of "size_v v"] True
        by (simp add: grown_capacity_def mult.commute)
      from that(4,5) True obtain m where
        "RawMemory_sized E (if size_v v = 0 then 1 else wrap (size_v v * 2)) = Inr m"
        by (auto simp: Emplace_def InsertWithoutRelocation_def begin_v_def end_v_def Let_def
              and_then_eq_Ok split: sum.splits if_splits)
      from RawMemory_sized_allocated[OF this that(1)] w cap show ?thesis
        by (simp add: in_address_space_def)
    next
      case False
      with cap that(3) show ?thesis by (simp add: in_address_space_def grown_capacity_def)
    qed
  qed
  show "in_address_space v'" if "struct_inv v" "in_address_space v" "Erase E v pos = Ok (v', p)"
    using Erase_Ok[OF that(1,3)] that(2) by (simp add: in_address_space_def)
qed

lemma bounded_allocator_int_env: "bounded_allocator int_env"
  by (simp add: bounded_allocator_def int_env_def)

section \<open>The claims\<close>

text \<open>
  C1. From a default-constructed \<^verbatim>\<open>Vector<int>\<close> (size 0, capacity 0), \<open>EmplaceBack(1)\<close>,
  \<open>EmplaceBack(2)\<close>, \<open>EmplaceBack(3)\<close> give capacities 1, 2 and 4, size 3 and the
  elements 1, 2, 3; \<open>Insert\<close> of 9 at position 1 then gives 1, 9, 2, 3 with size 4, and
  \<open>Erase\<close> at position 0 then gives 9, 2, 3 with size 3.
\<close>

theorem scenario_emplace_insert_erase:
  "Size (Vector_default :: int vector) = 0 \<and> Capacity (Vector_default :: int vector) = 0 \<and>
   EmplaceBack int_env Vector_default (Constructs 1) =
     Ok (\<lparr>data = \<lparr>buffer = [Some 1], capacity = 1, released = []\<rparr>, size_v = 1\<rparr>, 0) \<and>
   EmplaceBack int_env
     \<lparr>data = \<lparr>buffer = [Some 1], capacity = 1, released = []\<rparr>, size_v = 1\<rparr> (Constructs 2) =
     Ok (\<lparr>data = \<lparr>buffer = [Some 1, Some 2], capacity = 2, released = []\<rparr>, size_v = 2\<rparr>, 1) \<and>
   EmplaceBack int_env
     \<lparr>data = \<lparr>buffer = [Some 1, Some 2], capacity = 2, released = []\<rparr>, size_v = 2\<rparr> (Constructs 3) =
     Ok (\<lparr>data = \<lparr>buffer = [Some 1, Some 2, Some 3, None], capacity = 4, released = []\<rparr>,
         size_v = 3\<rparr>, 2) \<and>
   elements \<lparr>data = \<lparr>buffer = [Some (1 :: int), Some 2, Some 3, None], capacity = 4, released = []\<rparr>,
             size_v = 3\<rparr> = [1, 2, 3] \<and>
   Insert_copy int_env
     \<lparr>data = \<lparr>buffer = [Some 1, Some 2, Some 3, None], capacity = 4, released = []\<rparr>,
      size_v = 3\<rparr> 1 9 =
     Ok (\<lparr>data = \<lparr>buffer = [Some 1, Some 9, Some 2, Some 3], capacity = 4, released = []\<rparr>,
         size_v = 4\<rparr>, 1) \<and>
   Insert_move int_env
     \<lparr>data = \<lparr>buffer = [Some 1, Some 2, Some 3, None], capacity = 4, released = []\<rparr>,
      size_v = 3\<rparr> 1 9 =
     Ok (\<lparr>data = \<lparr>buffer = [Some 1, Some 9, Some 2, Some 3], capacity = 4, released = []\<rparr>,
         size_v = 4\<rparr>, 1) \<and>
   elements \<lparr>data = \<lparr>buffer = [Some (1 :: int), Some 9, Some 2, Some 3], capacity = 4, released = []\<rparr>,
             size_v = 4\<rparr> = [1, 9, 2, 3] \<and>
   Erase int_env
     \<lparr>data = \<lparr>buffer = [Some 1, Some 9, Some 2, Some 3], capacity = 4, released = []\<rparr>,
      size_v = 4\<rparr> 0 =
     Ok (\<lparr>data = \<lparr>buffer = [Some 9, Some 2, Some 3, None], capacity = 4, released = []\<rparr>,
         size_v = 3\<rparr>, 0) \<and>
   elements \<lparr>data = \<lparr>buffer = [Some (9 :: int), Some 2, Some 3, None], capacity = 4, released = []\<rparr>,
             size_v = 3\<rparr> = [9, 2, 3]"
proof -
  have mv: "make_vector [1 :: int] 1 [] =
      \<lparr>data = \<lparr>buffer = [Some 1], capacity = 1, released = []\<rparr>, size_v = 1\<rparr>"
    "make_vector [1, 2 :: int] 2 [] =
      \<lparr>data = \<lparr>buffer = [Some 1, Some 2], capacity = 2, released = []\<rparr>, size_v = 2\<rparr>"
    "make_vector [1, 2, 3 :: int] 4 [] =
      \<lparr>data = \<lparr>buffer = [Some 1, Some 2, Some 3, None], capacity = 4, released = []\<rparr>, size_v = 3\<rparr>"
    "make_vector [1, 9, 2, 3 :: int] 4 [] =
      \<lparr>data = \<lparr>buffer = [Some 1, Some 9, Some 2, Some 3], capacity = 4, released = []\<rparr>, size_v = 4\<rparr>"
    "make_vector [9, 2, 3 :: int] 4 [] =
      \<lparr>data = \<lparr>buffer = [Some 9, Some 2, Some 3, None], capacity = 4, released = []\<rparr>, size_v = 3\<rparr>"
    by (simp_all add: make_vector_def slots_def)
  have e1: "EmplaceBack int_env Vector_default (Constructs 1) = Ok (make_vector [1] 1 [], 0)"
    unfolding EmplaceBack_def Vector_default_make_vector
    by (subst Emplace_nothrow) (simp_all add: concrete end_v_def)
  have e2: "EmplaceBack int_env (make_vector [1] 1 []) (Constructs 2) = Ok (make_vector [1, 2] 2 [], 1)"
    unfolding EmplaceBack_def
    by (subst Emplace_nothrow) (simp_all add: concrete end_v_def)
  have e3: "EmplaceBack int_env (make_vector [1, 2] 2 []) (Constructs 3) = Ok (make_vector [1, 2, 3] 4 [], 2)"
    unfolding EmplaceBack_def
    by (subst Emplace_nothrow) (simp_all add: concrete end_v_def)
  have i4: "Insert_copy int_env (make_vector [1, 2, 3] 4 []) 1 9 = Ok (make_vector [1, 9, 2, 3] 4 [], 1)"
    unfolding Insert_copy_def init_nothrow(1)[OF never_throws_int_env]
    by (subst Emplace_nothrow) (simp_all add: concrete)
  have m4: "Insert_move int_env (make_vector [1, 2, 3] 4 []) 1 9 = Ok (make_vector [1, 9, 2, 3] 4 [], 1)"
    unfolding Insert_move_def init_nothrow(2)[OF never_throws_int_env]
    by (subst Emplace_nothrow) (simp_all add: concrete)
  have r5: "Erase int_env (make_vector [1, 9, 2, 3] 4 []) 0 = Ok (make_vector [9, 2, 3] 4 [], 0)"
    by (subst Erase_nothrow) (simp_all add: concrete)
  have el: "elements (make_vector [1, 2, 3 :: int] 4 []) = [1, 2, 3]"
    "elements (make_vector [1, 9, 2, 3 :: int] 4 []) = [1, 9, 2, 3]"
    "elements (make_vector [9, 2, 3 :: int] 4 []) = [9, 2, 3]"
    by simp_all
  have d: "Size (Vector_default :: int vector) = 0" "Capacity (Vector_default :: int vector) = 0"
    by (simp_all add: Size_def Vector_default_make_vector)
  from e1 e2 e3 i4 m4 r5 el d show ?thesis
    unfolding mv by simp
qed

text \<open>
  C2. Every public operation keeps the invariant \<open>0 \<le> size \<le> capacity\<close>, the slots
  below the size live and the slots from the size on raw. An insertion into spare
  capacity that is left by an exception does not: here the move assignment of the new
  element throws after \<open>InsertWithRelocation\<close> has move-constructed the last element
  into the slot at \<open>end()\<close>; the \<^verbatim>\<open>catch\<close> does not destroy it and the size stays 1, so
  slot 1 is live outside \<open>[0, size)\<close>.
\<close>

theorem failed_insert_breaks_invariant:
  "struct_inv \<lparr>data = \<lparr>buffer = [Some (1 :: int), None], capacity = 2, released = []\<rparr>, size_v = 1\<rparr> \<and>
   Insert_copy handle_env
     \<lparr>data = \<lparr>buffer = [Some 1, None], capacity = 2, released = []\<rparr>, size_v = 1\<rparr> 0 9 =
   Throw ElementFailure
     \<lparr>data = \<lparr>buffer = [Some 0, Some 1], capacity = 2, released = [1]\<rparr>, size_v = 1\<rparr> \<and>
   \<not> struct_inv \<lparr>data = \<lparr>buffer = [Some (0 :: int), Some 1], capacity = 2, released = [1]\<rparr>, size_v = 1\<rparr>"
  by (simp add: eval_defs eval_nat_numeral)





text \<open>
  C5. Copy assignment: a right-hand side larger than the capacity is copied into a
  temporary that is swapped in, so a failing copy leaves the vector as it was; otherwise
  the assignment is done in place and the size becomes that of the right-hand side. The
  in-place branch takes \<^verbatim>\<open>&rhs.data_[pos]\<close> and \<^verbatim>\<open>&data_[pos]\<close> through
  \<^verbatim>\<open>RawMemory::operator[]\<close>, which asserts \<^verbatim>\<open>index < capacity_\<close>: for two vectors of equal
  size that fill their blocks \<open>pos\<close> equals the capacity and the assertion fails, also for
  two empty vectors.
\<close>

theorem copy_assign_full_equal_size_asserts:
  "Vector_sized int_env 2 =
     Ok \<lparr>data = \<lparr>buffer = [Some 0, Some 0], capacity = 2, released = []\<rparr>, size_v = 2\<rparr> \<and>
   copy_assign int_env
     \<lparr>data = \<lparr>buffer = [Some 0, Some 0], capacity = 2, released = []\<rparr>, size_v = 2\<rparr>
     \<lparr>data = \<lparr>buffer = [Some 0, Some 0], capacity = 2, released = []\<rparr>, size_v = 2\<rparr> = AssertFailed \<and>
   assign_copy int_env
     (\<lambda>a. \<lparr>data = \<lparr>buffer = [Some 0, Some 0], capacity = 2, released = []\<rparr>, size_v = 2\<rparr>) 0 1 =
     AssertFailed \<and>
   copy_assign int_env Vector_default Vector_default = AssertFailed"
proof -
  have "can_allocate int_env 2" by (simp add: can_allocate_int_env)
  then have "Vector_sized int_env 2 =
     Ok \<lparr>data = \<lparr>buffer = [Some 0, Some 0], capacity = 2, released = []\<rparr>, size_v = 2\<rparr>"
    by (simp add: Vector_sized_def RawMemory_sized_def Allocate_def and_then_def raw_at_def
          numeral_2_eq_2 int_env_def[THEN arg_cong, of value_init]
          int_env_def[THEN arg_cong, of value_init_throws])
  moreover have "copy_assign int_env
     \<lparr>data = \<lparr>buffer = [Some 0, Some 0], capacity = 2, released = []\<rparr>, size_v = 2\<rparr>
     \<lparr>data = \<lparr>buffer = [Some 0, Some 0], capacity = 2, released = []\<rparr>, size_v = 2\<rparr> = AssertFailed"
    by (simp add: eval_defs eval_nat_numeral)
  moreover have "copy_assign int_env Vector_default Vector_default = AssertFailed"
    by (simp add: eval_defs)
  ultimately show ?thesis by (simp add: assign_copy_def)
qed

text \<open>
  C6. When an insertion into spare capacity fails partway, the rollback gives back only
  the unconstructed trailing slot and the container stays consistent. In the code the
  \<^verbatim>\<open>catch\<close> passes \<open>end()\<close> to \<^verbatim>\<open>operator delete\<close>. When the constructor of the new
  element throws in an empty vector with capacity 1, that is offset 0, the block itself,
  which the vector keeps. And the slot at \<open>end()\<close> is constructed once
  \<^verbatim>\<open>uninitialized_move_n\<close> has run: when the shift throws after that, the \<^verbatim>\<open>catch\<close>
  passes the address of this live slot, runs no destructor and leaves the size at 2, with
  slot 2 live.
\<close>

theorem failed_shift_releases_live_slot:
  "EmplaceBack handle_env
     \<lparr>data = \<lparr>buffer = [None], capacity = 1, released = []\<rparr>, size_v = 0\<rparr> Throws =
   Throw ElementFailure
     \<lparr>data = \<lparr>buffer = [None], capacity = 1, released = [0]\<rparr>, size_v = 0\<rparr> \<and>
   Emplace handle_env
     \<lparr>data = \<lparr>buffer = [Some 1, Some 2, None, None], capacity = 4, released = []\<rparr>, size_v = 2\<rparr>
     0 (Constructs 9) =
   Throw ElementFailure
     \<lparr>data = \<lparr>buffer = [Some 1, Some 0, Some 2, None], capacity = 4, released = [2]\<rparr>, size_v = 2\<rparr> \<and>
   live_at [Some (1 :: int), Some 0, Some 2, None] 2 \<and>
   \<not> struct_inv
       \<lparr>data = \<lparr>buffer = [Some (1 :: int), Some 0, Some 2, None], capacity = 4, released = [2]\<rparr>,
        size_v = 2\<rparr>"
  by (simp add: eval_defs eval_nat_numeral)



text \<open>
  C8. Which relocation path is compiled in, move or copy, depends on the two traits of
  the element type only. Changing the traits never changes the result of a call that
  returns: \<open>Reserve\<close>, \<open>Resize\<close> and \<open>Emplace\<close> return the same vector (size, capacity,
  elements) and the same iterator under either path.
\<close>

theorem relocation_path_irrelevant:
  assumes "struct_inv v" and "in_address_space v"
    and "E' = E\<lparr>is_nothrow_move_constructible := a, is_copy_constructible := b\<rparr>"
    and "relocates_by_move E" and "\<not> relocates_by_move E'"
  shows "(\<forall>r r'. Reserve E v n = Ok r \<and> Reserve E' v n = Ok r' \<longrightarrow> r = r') \<and>
         (\<forall>r r'. Resize E v n = Ok r \<and> Resize E' v n = Ok r' \<longrightarrow> r = r') \<and>
         (\<forall>s s'. pos \<le> Size v \<and> Emplace E v pos args = Ok s \<and> Emplace E' v pos args = Ok s'
            \<longrightarrow> s = s')"
proof (intro conjI allI impI)
  fix r r' assume h: "Reserve E v n = Ok r \<and> Reserve E' v n = Ok r'"
  show "r = r'"
  proof (cases "n \<le> Capacity v")
    case True
    with h show ?thesis by (auto simp: Reserve_noop)
  next
    case False
    then have "Capacity v < n" by simp
    from Reserve_Ok[OF assms(1) this, of E r] Reserve_Ok[OF assms(1) this, of E' r'] h
    show ?thesis by simp
  qed
next
  fix r r' assume h: "Resize E v n = Ok r \<and> Resize E' v n = Ok r'"
  have "value_init E' = value_init E" using assms(3) by simp
  with Resize_Ok[OF assms(1,2), of E n r] Resize_Ok[OF assms(1,2), of E' n r'] h
  show "r = r'" by simp
next
  fix s s' assume h: "pos \<le> Size v \<and> Emplace E v pos args = Ok s \<and> Emplace E' v pos args = Ok s'"
  obtain v1 p v1' p' where s: "s = (v1, p)" "s' = (v1', p')" by (cases s, cases s') auto
  from h have pos: "pos \<le> size_v v" by (simp add: Size_def)
  from Emplace_Ok[OF assms(1,2) pos, of E args v1 p] Emplace_Ok[OF assms(1,2) pos, of E' args v1' p'] h s
  show "s = s'" by auto
qed

theorem relocation_path_irrelevant_witness:
  "struct_inv (make_vector [1, 2 :: int] 2 []) \<and> in_address_space (make_vector [1, 2 :: int] 2 []) \<and>
   relocates_by_move int_env \<and>
   \<not> relocates_by_move (int_env\<lparr>is_nothrow_move_constructible := False, is_copy_constructible := True\<rparr>) \<and>
   1 \<le> Size (make_vector [1, 2 :: int] 2 []) \<and>
   (\<exists>s. Emplace int_env (make_vector [1, 2] 2 []) 1 (Constructs 9) = Ok s \<and>
        Emplace (int_env\<lparr>is_nothrow_move_constructible := False, is_copy_constructible := True\<rparr>)
          (make_vector [1, 2] 2 []) 1 (Constructs 9) = Ok s \<and>
        elements (fst s) = [1, 9, 2] \<and> Capacity (fst s) = 4) \<and>
   (\<exists>r. Reserve int_env (make_vector [1, 2] 2 []) 3 = Ok r \<and>
        Reserve (int_env\<lparr>is_nothrow_move_constructible := False, is_copy_constructible := True\<rparr>)
          (make_vector [1, 2] 2 []) 3 = Ok r)"
proof -
  let ?v = "make_vector [1, 2 :: int] 2 []"
  let ?E' = "int_env\<lparr>is_nothrow_move_constructible := False, is_copy_constructible := True\<rparr>"
  have h: "struct_inv ?v" "in_address_space ?v" "relocates_by_move int_env"
    "\<not> relocates_by_move ?E'" "1 \<le> Size ?v" "1 \<le> size_v ?v"
    by (simp_all add: concrete Size_def relocates_by_move_def int_env_def)
  have nt: "never_throws ?E'" "can_allocate ?E' 4" "can_allocate ?E' 3"
    by (simp_all add: never_throws_def int_env_def ptrdiff_max_def)
  note t = relocation_path_irrelevant[OF h(1,2) refl h(3,4)]
  have e1: "Emplace int_env ?v 1 (Constructs 9) = Ok (make_vector [1, 9, 2] 4 [], 1)"
    by (subst Emplace_nothrow) (simp_all add: concrete)
  have "\<exists>s'. Emplace ?E' ?v 1 (Constructs 9) = Ok s'"
    using Emplace_total[OF h(1,2,6) nt(1)] nt(2) by (simp add: grown_capacity_def)
  then obtain s' where e2: "Emplace ?E' ?v 1 (Constructs 9) = Ok s'" by blast
  from t[of 3 1 "Constructs 9"] e1 e2 h(5) have "s' = (make_vector [1, 9, 2] 4 [], 1)" by blast
  with e1 e2 have E: "\<exists>s. Emplace int_env ?v 1 (Constructs 9) = Ok s \<and>
        Emplace ?E' ?v 1 (Constructs 9) = Ok s \<and> elements (fst s) = [1, 9, 2] \<and> Capacity (fst s) = 4"
    by simp
  have r1: "Reserve int_env ?v 3 = Ok (make_vector [1, 2] 3 [])"
    by (subst Reserve_nothrow) (simp_all add: concrete)
  have "\<exists>r'. Reserve ?E' ?v 3 = Ok r'"
    using Reserve_total[OF h(1) _ nt(3) nt(1)] by simp
  then obtain r' where r2: "Reserve ?E' ?v 3 = Ok r'" by blast
  from t[of 3 1 "Constructs 9"] r1 r2 have "r' = make_vector [1, 2] 3 []" by blast
  with r1 r2 have R: "\<exists>r. Reserve int_env ?v 3 = Ok r \<and> Reserve ?E' ?v 3 = Ok r" by simp
  from h E R show ?thesis by blast
qed

text \<open>
  C9. Assigning a vector to itself, by copy or by move, changes nothing: both operators
  compare the addresses of their operands first.
\<close>

theorem self_assignment_noop:
  "assign_copy E st this this = Ok st \<and> assign_move st this this = st"
  by (simp add: assign_copy_def assign_move_def)



end
